theory Spec2Isabelle
  imports Main "HOL-Library.Monad_Syntax"
begin

section \<open>Strings as the scanners see them\<close>

text \<open>
  A source string is modelled as a \<^typ>\<open>string\<close>: one \<^typ>\<open>char\<close> per code unit, for
  code units below 256.  The glyph alternatives of the test patterns (bullets, check marks,
  crosses) lie outside that range and therefore never occur in a modelled input.
\<close>

definition nl :: char where
  "nl = CHR 0x0A"

definition esc :: char where
  "esc = CHR 0x1B"

definition bel :: char where
  "bel = CHR 0x07"

text \<open>The white space of \<^verbatim>\<open>\s\<close> and of \<^verbatim>\<open>trim()\<close>: TAB, LF, VT, FF, CR, SP, NBSP.\<close>

definition is_space :: "char \<Rightarrow> bool" where
  "is_space c \<longleftrightarrow> c \<in> set [CHR 0x09, CHR 0x0A, CHR 0x0B, CHR 0x0C, CHR 0x0D, CHR 0x20, CHR 0xA0]"

definition is_digit :: "char \<Rightarrow> bool" where
  "is_digit c \<longleftrightarrow> c \<in> set ''0123456789''"

definition is_alpha :: "char \<Rightarrow> bool" where
  "is_alpha c \<longleftrightarrow> c \<in> set ''abcdefghijklmnopqrstuvwxyzABCDEFGHIJKLMNOPQRSTUVWXYZ''"

text \<open>The class \<^verbatim>\<open>\w\<close>.\<close>

definition is_word :: "char \<Rightarrow> bool" where
  "is_word c \<longleftrightarrow> is_alpha c \<or> is_digit c \<or> c = CHR ''_''"

definition trim :: "string \<Rightarrow> string" where
  "trim s = rev (dropWhile is_space (rev (dropWhile is_space s)))"

text \<open>\<^verbatim>\<open>s.split(c)\<close> for a one-character separator: never the empty list.\<close>

fun split_on :: "char \<Rightarrow> string \<Rightarrow> string list" where
  "split_on c [] = [[]]"
| "split_on c (x # xs) =
     (if x = c then [] # split_on c xs
      else (case split_on c xs of [] \<Rightarrow> [[x]] | y # ys \<Rightarrow> (x # y) # ys))"

text \<open>\<^verbatim>\<open>parts.join(sep)\<close>.\<close>

fun join_with :: "string \<Rightarrow> string list \<Rightarrow> string" where
  "join_with sep [] = []"
| "join_with sep [x] = x"
| "join_with sep (x # y # ys) = x @ sep @ join_with sep (y # ys)"

definition startsWith :: "string \<Rightarrow> string \<Rightarrow> bool" where
  "startsWith s p \<longleftrightarrow> take (length p) s = p"

definition endsWith :: "string \<Rightarrow> string \<Rightarrow> bool" where
  "endsWith s p \<longleftrightarrow> length p \<le> length s \<and> drop (length s - length p) s = p"

text \<open>\<^verbatim>\<open>s.includes(p)\<close>.\<close>

fun str_includes :: "string \<Rightarrow> string \<Rightarrow> bool" where
  "str_includes [] p \<longleftrightarrow> p = []"
| "str_includes (c # cs) p \<longleftrightarrow> startsWith (c # cs) p \<or> str_includes cs p"

text \<open>
  \<^verbatim>\<open>toLowerCase()\<close> on code units below 256: the ASCII capitals and the Latin-1
  capitals 0xC0 to 0xDE (the multiplication sign 0xD7 apart) move up by 32.
\<close>

definition lower_char :: "char \<Rightarrow> char" where
  "lower_char c =
     (let n = (of_char c :: nat) in
      if (65 \<le> n \<and> n \<le> 90) \<or> (192 \<le> n \<and> n \<le> 222 \<and> n \<noteq> 215)
      then char_of (n + 32) else c)"

definition toLowerCase :: "string \<Rightarrow> string" where
  "toLowerCase s = map lower_char s"

text \<open>Decimal rendering of a count, as a template literal prints it.\<close>

definition digit_char :: "nat \<Rightarrow> char" where
  "digit_char d = ''0123456789'' ! d"

function show_nat :: "nat \<Rightarrow> string" where
  "show_nat n = (if n < 10 then [digit_char n] else show_nat (n div 10) @ [digit_char (n mod 10)])"
  by pat_completeness auto
termination
  by (relation "measure id") auto

declare show_nat.simps [simp del]

text \<open>
  Pieces of the regular expressions.  Every pattern of the program is a sequence of
  literals and of repeated character classes in which a repeated class is followed by
  something that cannot begin with a character of the class, so that taking the longest
  run is the only way to match and a prefix matcher without backtracking is exact.
\<close>

text \<open>A literal at the head of the input; the rest is returned.\<close>

definition lit :: "string \<Rightarrow> string \<Rightarrow> string option" where
  "lit p s = (if startsWith s p then Some (drop (length p) s) else None)"

text \<open>\<^verbatim>\<open>C+\<close> at the head of the input: the run (the capture) and the rest.\<close>

definition take_plus :: "(char \<Rightarrow> bool) \<Rightarrow> string \<Rightarrow> (string \<times> string) option" where
  "take_plus P s = (if takeWhile P s = [] then None else Some (takeWhile P s, dropWhile P s))"

text \<open>\<^verbatim>\<open>\s*\<close> at the head of the input.\<close>

definition skip_ws :: "string \<Rightarrow> string" where
  "skip_ws s = dropWhile is_space s"

text \<open>\<^verbatim>\<open>\s+\<close> at the head of the input.\<close>

definition ws_plus :: "string \<Rightarrow> string option" where
  "ws_plus s = map_option snd (take_plus is_space s)"

text \<open>The leftmost position at which a prefix matcher succeeds (an unanchored pattern).\<close>

fun first_match :: "(string \<Rightarrow> 'a option) \<Rightarrow> string \<Rightarrow> 'a option" where
  "first_match m [] = m []"
| "first_match m (c # cs) = (case m (c # cs) of Some r \<Rightarrow> Some r | None \<Rightarrow> first_match m cs)"

text \<open>\<^verbatim>\<open>/^word\s+/\<close>: the word, then at least one white-space character.\<close>

definition word_then_space :: "string \<Rightarrow> string \<Rightarrow> bool" where
  "word_then_space w s \<longleftrightarrow>
     startsWith s w \<and> (case drop (length w) s of [] \<Rightarrow> False | c # _ \<Rightarrow> is_space c)"

section \<open>ANSI stripper\<close>

text \<open>
  \<^verbatim>\<open>text.replace(/re/g, rep)\<close>: scanning from the left, a match is replaced by \<open>rep\<close> and
  the scan goes on behind it; where there is no match the character is kept.  The matcher
  gives the length of the match at the head of the input.  No pattern of the program
  matches the empty string.
\<close>

function replace_all :: "(string \<Rightarrow> nat option) \<Rightarrow> string \<Rightarrow> string \<Rightarrow> string" where
  "replace_all m rep [] = []"
| "replace_all m rep (c # cs) =
     (case m (c # cs) of
        None \<Rightarrow> c # replace_all m rep cs
      | Some n \<Rightarrow> if n = 0 then c # replace_all m rep cs
                 else rep @ replace_all m rep (drop (n - 1) cs))"
  by pat_completeness auto
termination
  by (relation "measure (\<lambda>(m, rep, s). length s)") auto

definition is_param :: "char \<Rightarrow> bool" where
  "is_param c \<longleftrightarrow> is_digit c \<or> c = CHR '';''"

text \<open>\<^verbatim>\<open>/\x1b\[[0-9;]*[a-zA-Z]/\<close>\<close>

fun csi_match :: "string \<Rightarrow> nat option" where
  "csi_match (e # b # rest) =
     (if e = esc \<and> b = CHR ''['' then
        (case dropWhile is_param rest of
           [] \<Rightarrow> None
         | l # _ \<Rightarrow> if is_alpha l then Some (length (takeWhile is_param rest) + 3) else None)
      else None)"
| "csi_match _ = None"

text \<open>The terminator \<^verbatim>\<open>(?:\x07|\x1b\\)\<close>: its length at the head of the input.\<close>

fun osc_end :: "string \<Rightarrow> nat option" where
  "osc_end [] = None"
| "osc_end (c # cs) =
     (if c = bel then Some 1
      else if c = esc then (case cs of [] \<Rightarrow> None | d # _ \<Rightarrow> if d = CHR 0x5C then Some 2 else None)
      else None)"

text \<open>\<^verbatim>\<open>/\x1b\][0-9;]*(?:\x07|\x1b\\)/\<close>\<close>

fun osc_param_match :: "string \<Rightarrow> nat option" where
  "osc_param_match (e # b # rest) =
     (if e = esc \<and> b = CHR '']'' then
        map_option (\<lambda>k. length (takeWhile is_param rest) + 2 + k) (osc_end (dropWhile is_param rest))
      else None)"
| "osc_param_match _ = None"

text \<open>\<^verbatim>\<open>/\x1b\][^\x07\x1b]*(?:\x07|\x1b\\)/\<close>\<close>

definition is_osc_body :: "char \<Rightarrow> bool" where
  "is_osc_body c \<longleftrightarrow> c \<noteq> bel \<and> c \<noteq> esc"

fun osc_any_match :: "string \<Rightarrow> nat option" where
  "osc_any_match (e # b # rest) =
     (if e = esc \<and> b = CHR '']'' then
        map_option (\<lambda>k. length (takeWhile is_osc_body rest) + 2 + k) (osc_end (dropWhile is_osc_body rest))
      else None)"
| "osc_any_match _ = None"

definition stripAnsi :: "string \<Rightarrow> string" where
  "stripAnsi text =
     replace_all osc_any_match [] (replace_all osc_param_match [] (replace_all csi_match [] text))"

text \<open>Some position of the text begins a match of the pattern.\<close>

fun match_somewhere :: "(string \<Rightarrow> nat option) \<Rightarrow> string \<Rightarrow> bool" where
  "match_somewhere m [] \<longleftrightarrow> False"
| "match_somewhere m (c # cs) \<longleftrightarrow>
     (case m (c # cs) of Some n \<Rightarrow> True | None \<Rightarrow> match_somewhere m cs)"

text \<open>The text holds a sequence that one of the three patterns of the stripper matches.\<close>

definition has_sequence :: "string \<Rightarrow> bool" where
  "has_sequence s \<longleftrightarrow>
     match_somewhere csi_match s \<or> match_somewhere osc_param_match s
     \<or> match_somewhere osc_any_match s"

definition stripAnsiFast :: "string \<Rightarrow> string" where
  "stripAnsiFast text = (if esc \<notin> set text then text else stripAnsi text)"

section \<open>Path compactor\<close>

text \<open>
  \<^verbatim>\<open>compactPath(path, maxLength)\<close>, the same function in the search grouper and in the
  linter aggregator.  The indexed reads happen only when there are more than three parts.
\<close>

definition compactPath :: "string \<Rightarrow> nat \<Rightarrow> string" where
  "compactPath path maxLength =
     (if length path \<le> maxLength then path
      else let parts = split_on (CHR ''/'') path in
        if length parts \<le> 3 then path
        else parts ! 0 @ ''/.../'' @ parts ! (length parts - 2) @ ''/'' @ parts ! (length parts - 1))"

section \<open>Build aggregator\<close>

definition BUILD_COMMANDS :: "string list" where
  "BUILD_COMMANDS =
     [''cargo build'', ''cargo check'', ''bun build'', ''npm run build'', ''yarn build'',
      ''pnpm build'', ''tsc'', ''make'', ''cmake'', ''gradle'', ''mvn'', ''go build'',
      ''go install'', ''python setup.py build'', ''pip install'']"

text \<open>The words of \<^verbatim>\<open>SKIP_PATTERNS\<close>, each standing for \<^verbatim>\<open>/^\s*Word\s+/\<close>.\<close>

definition SKIP_PATTERNS :: "string list" where
  "SKIP_PATTERNS =
     [''Compiling'', ''Checking'', ''Downloading'', ''Downloaded'', ''Fetching'', ''Fetched'',
      ''Updating'', ''Updated'', ''Building'', ''Generated'', ''Creating'', ''Running'']"

text \<open>\<^verbatim>\<open>/^error\[/\<close>, \<^verbatim>\<open>/^error:/\<close>, \<^verbatim>\<open>/^\[ERROR\]/\<close>, \<^verbatim>\<open>/^FAIL/\<close>.\<close>

definition ERROR_START_PATTERNS :: "string list" where
  "ERROR_START_PATTERNS = [''error['', ''error:'', ''[ERROR]'', ''FAIL'']"

text \<open>\<^verbatim>\<open>/^warning:/\<close>, \<^verbatim>\<open>/^\[WARNING\]/\<close>, \<^verbatim>\<open>/^warn:/\<close>.\<close>

definition WARNING_PATTERNS :: "string list" where
  "WARNING_PATTERNS = [''warning:'', ''[WARNING]'', ''warn:'']"

definition isSkipLine :: "string \<Rightarrow> bool" where
  "isSkipLine line \<longleftrightarrow> list_ex (\<lambda>w. word_then_space w (skip_ws line)) SKIP_PATTERNS"

definition isErrorStart :: "string \<Rightarrow> bool" where
  "isErrorStart line \<longleftrightarrow> list_ex (startsWith line) ERROR_START_PATTERNS"

definition isWarning :: "string \<Rightarrow> bool" where
  "isWarning line \<longleftrightarrow> list_ex (startsWith line) WARNING_PATTERNS"

text \<open>\<^verbatim>\<open>/^\s*(Compiling|Checking|Building)\s+/\<close>, the test that counts a compiled unit.\<close>

definition isUnitStart :: "string \<Rightarrow> bool" where
  "isUnitStart line \<longleftrightarrow>
     list_ex (\<lambda>w. word_then_space w (skip_ws line)) [''Compiling'', ''Checking'', ''Building'']"

text \<open>\<^verbatim>\<open>/^\s/\<close>\<close>

definition starts_with_space :: "string \<Rightarrow> bool" where
  "starts_with_space line \<longleftrightarrow> (case line of [] \<Rightarrow> False | c # _ \<Rightarrow> is_space c)"

text \<open>A command that is \<^verbatim>\<open>undefined\<close> or \<^verbatim>\<open>null\<close> is \<^term>\<open>None\<close>.\<close>

definition isBuildCommand :: "string option \<Rightarrow> bool" where
  "isBuildCommand command \<longleftrightarrow>
     (case command of
        None \<Rightarrow> False
      | Some c \<Rightarrow> c \<noteq> [] \<and> list_ex (\<lambda>bc. str_includes (toLowerCase c) (toLowerCase bc)) BUILD_COMMANDS)"

text \<open>The statistics and the three loop variables of \<^verbatim>\<open>filterBuildOutput\<close>.\<close>

record build_scan =
  compiled :: nat
  errors :: "string list list"
  warnings :: "string list"
  inErrorBlock :: bool
  currentError :: "string list"
  blankCount :: nat

definition build_init :: build_scan where
  "build_init =
     \<lparr>compiled = 0, errors = [], warnings = [], inErrorBlock = False, currentError = [],
      blankCount = 0\<rparr>"

text \<open>One round of the loop over the lines.\<close>

definition build_step :: "build_scan \<Rightarrow> string \<Rightarrow> build_scan" where
  "build_step s line =
     (if isUnitStart line then s\<lparr>compiled := compiled s + 1\<rparr>
      else if isSkipLine line then s
      else if isErrorStart line then
        s\<lparr>errors := (if inErrorBlock s \<and> 0 < length (currentError s)
                      then errors s @ [currentError s] else errors s),
          inErrorBlock := True, currentError := [line], blankCount := 0\<rparr>
      else if isWarning line then s\<lparr>warnings := warnings s @ [line]\<rparr>
      else if inErrorBlock s then
        (if trim line = [] then
           (if 2 \<le> blankCount s + 1 \<and> 3 < length (currentError s)
            then s\<lparr>blankCount := blankCount s + 1, errors := errors s @ [currentError s],
                   inErrorBlock := False, currentError := []\<rparr>
            else s\<lparr>blankCount := blankCount s + 1, currentError := currentError s @ [line]\<rparr>)
         else if starts_with_space line \<or> startsWith line ''-->'' then
           s\<lparr>currentError := currentError s @ [line], blankCount := 0\<rparr>
         else s\<lparr>errors := errors s @ [currentError s], inErrorBlock := False,
                 currentError := []\<rparr>)
      else s)"

text \<open>The flush of the last block after the loop.\<close>

definition build_flush :: "build_scan \<Rightarrow> build_scan" where
  "build_flush s =
     (if inErrorBlock s \<and> 0 < length (currentError s)
      then s\<lparr>errors := errors s @ [currentError s]\<rparr> else s)"

definition build_scan_lines :: "string list \<Rightarrow> build_scan" where
  "build_scan_lines lines = build_flush (foldl build_step build_init lines)"

definition format_error_block :: "string list \<Rightarrow> string list" where
  "format_error_block error = take 10 error @ (if 10 < length error then [''  ...''] else [])"

definition format_build :: "build_scan \<Rightarrow> string" where
  "format_build s =
     (if length (errors s) = 0 \<and> length (warnings s) = 0
      then ''[OK] Build successful ('' @ show_nat (compiled s) @ '' units compiled)''
      else join_with [nl]
        ((if 0 < length (errors s)
          then [''[ERROR] '' @ show_nat (length (errors s)) @ '' error(s):'']
               @ concat (map format_error_block (take 5 (errors s)))
               @ (if 5 < length (errors s)
                  then [''... and '' @ show_nat (length (errors s) - 5) @ '' more errors'']
                  else [])
          else [])
         @ (if 0 < length (warnings s)
            then [nl # ''[WARN] '' @ show_nat (length (warnings s)) @ '' warning(s)'']
            else [])))"

definition filterBuildOutput :: "string \<Rightarrow> string option \<Rightarrow> string option" where
  "filterBuildOutput output command =
     (if \<not> isBuildCommand command then None
      else Some (format_build (build_scan_lines (split_on nl output))))"

section \<open>Test aggregator\<close>

definition TEST_COMMANDS :: "string list" where
  "TEST_COMMANDS =
     [''test'', ''jest'', ''vitest'', ''pytest'', ''cargo test'', ''bun test'', ''go test'',
      ''mocha'', ''ava'', ''tap'']"

text \<open>The class \<^verbatim>\<open>[\s|;&]\<close>.\<close>

definition is_sep :: "char \<Rightarrow> bool" where
  "is_sep c \<longleftrightarrow> is_space c \<or> c \<in> set ''|;&''"

text \<open>
  \<^verbatim>\<open>(?:^|[\s|;&])tc(?:[\s|;&]|$)\<close> for a runner name \<open>tc\<close>.  No name holds a character
  that the escaping step would change, so the pattern holds the name itself.  The pattern
  matches when the name, followed by a separator or by the end, stands at the start of the
  command or right behind a separator.
\<close>

definition token_end :: "string \<Rightarrow> string \<Rightarrow> bool" where
  "token_end tc s \<longleftrightarrow>
     startsWith s tc \<and> (case drop (length tc) s of [] \<Rightarrow> True | c # _ \<Rightarrow> is_sep c)"

fun token_after_sep :: "string \<Rightarrow> string \<Rightarrow> bool" where
  "token_after_sep tc [] \<longleftrightarrow> False"
| "token_after_sep tc (c # cs) \<longleftrightarrow> (is_sep c \<and> token_end tc cs) \<or> token_after_sep tc cs"

definition token_match :: "string \<Rightarrow> string \<Rightarrow> bool" where
  "token_match tc s \<longleftrightarrow> token_end tc s \<or> token_after_sep tc s"

definition isTestCommand :: "string option \<Rightarrow> bool" where
  "isTestCommand command \<longleftrightarrow>
     (case command of
        None \<Rightarrow> False
      | Some c \<Rightarrow> c \<noteq> [] \<and> list_ex (\<lambda>tc. token_match (toLowerCase tc) (toLowerCase c)) TEST_COMMANDS)"

text \<open>
  Matching under the flag \<^verbatim>\<open>i\<close>: among the code units below 256 only the two cases of an
  ASCII letter are equal to it.
\<close>

definition lower_ascii :: "char \<Rightarrow> char" where
  "lower_ascii c =
     (let n = (of_char c :: nat) in if 65 \<le> n \<and> n \<le> 90 then char_of (n + 32) else c)"

definition lit_ci :: "string \<Rightarrow> string \<Rightarrow> string option" where
  "lit_ci p s =
     (if map lower_ascii (take (length p) s) = map lower_ascii p
      then Some (drop (length p) s) else None)"

text \<open>
  The capture groups 1 to 3 of a match; a group that took no part is \<^term>\<open>None\<close>
  (\<^verbatim>\<open>undefined\<close>).
\<close>

type_synonym groups = "string option \<times> string option \<times> string option"

text \<open>\<^verbatim>\<open>/test result:\s*(\w+)\.\s*(\d+)\s*passed;\s*(\d+)\s*failed;/\<close> at the head of the input.\<close>

definition result_pattern0 :: "string \<Rightarrow> groups option" where
  "result_pattern0 s = do {
     r1 \<leftarrow> lit ''test result:'' s;
     (g1, r2) \<leftarrow> take_plus is_word (skip_ws r1);
     r3 \<leftarrow> lit ''.'' r2;
     (g2, r4) \<leftarrow> take_plus is_digit (skip_ws r3);
     r5 \<leftarrow> lit ''passed;'' (skip_ws r4);
     (g3, r6) \<leftarrow> take_plus is_digit (skip_ws r5);
     r7 \<leftarrow> lit ''failed;'' (skip_ws r6);
     Some (Some g1, Some g2, Some g3) }"

text \<open>An optional group \<^verbatim>\<open>(?:,\s*(\d+)\s*word)?\<close>: its capture and the rest.\<close>

definition opt_count :: "string \<Rightarrow> string \<Rightarrow> string option \<times> string" where
  "opt_count w s =
     (case do {
        r1 \<leftarrow> lit '','' s;
        (g, r2) \<leftarrow> take_plus is_digit (skip_ws r1);
        r3 \<leftarrow> lit_ci w (skip_ws r2);
        Some (g, r3) }
      of None \<Rightarrow> (None, s) | Some (g, r) \<Rightarrow> (Some g, r))"

text \<open>\<^verbatim>\<open>/(\d+)\s*w1(?:,\s*(\d+)\s*w2)?(?:,\s*(\d+)\s*w3)?/i\<close> at the head of the input.\<close>

definition counts_pattern :: "string \<Rightarrow> string \<Rightarrow> string \<Rightarrow> string \<Rightarrow> groups option" where
  "counts_pattern w1 w2 w3 s = do {
     (g1, r1) \<leftarrow> take_plus is_digit s;
     r2 \<leftarrow> lit_ci w1 (skip_ws r1);
     (case opt_count w2 r2 of (g2, r3) \<Rightarrow>
        (case opt_count w3 r3 of (g3, r4) \<Rightarrow> Some (Some g1, g2, g3))) }"

text \<open>\<^verbatim>\<open>/tests?:\s*(\d+)\s*passed(?:,\s*(\d+)\s*failed)?(?:,\s*(\d+)\s*skipped)?/i\<close>\<close>

definition result_pattern3 :: "string \<Rightarrow> groups option" where
  "result_pattern3 s = do {
     r1 \<leftarrow> lit_ci ''test'' s;
     r2 \<leftarrow> lit '':'' (case lit_ci ''s'' r1 of Some r \<Rightarrow> r | None \<Rightarrow> r1);
     counts_pattern ''passed'' ''failed'' ''skipped'' (skip_ws r2) }"

definition TEST_RESULT_PATTERNS :: "(string \<Rightarrow> groups option) list" where
  "TEST_RESULT_PATTERNS =
     [result_pattern0,
      counts_pattern ''passed'' ''failed'' ''skipped'',
      counts_pattern ''pass'' ''fail'' ''skip'',
      result_pattern3]"

text \<open>
  \<^verbatim>\<open>parseInt(g, 10) || 0\<close> on a capture: the captures hold word characters only, so the
  number is the value of the leading digits, and 0 when there is none or the group is
  undefined.  Counts are exact natural numbers; the program holds them in doubles, which
  are exact below \<open>2 ^ 53\<close>, and prints them in decimal below \<open>10 ^ 21\<close>.
\<close>

definition digit_val :: "char \<Rightarrow> nat" where
  "digit_val c = of_char c - 48"

definition parse_count :: "string option \<Rightarrow> nat" where
  "parse_count g =
     (case g of
        None \<Rightarrow> 0
      | Some t \<Rightarrow> foldl (\<lambda>n c. 10 * n + digit_val c) 0 (takeWhile is_digit t))"

text \<open>The first pattern that matches anywhere in the text decides; \<^term>\<open>None\<close> when none does.\<close>

fun first_pattern :: "(string \<Rightarrow> groups option) list \<Rightarrow> string \<Rightarrow> groups option" where
  "first_pattern [] output = None"
| "first_pattern (p # ps) output =
     (case first_match p output of Some g \<Rightarrow> Some g | None \<Rightarrow> first_pattern ps output)"

definition extractTestStats :: "string \<Rightarrow> (nat \<times> nat \<times> nat) option" where
  "extractTestStats output =
     map_option (\<lambda>(g1, g2, g3). (parse_count g1, parse_count g2, parse_count g3))
       (first_pattern TEST_RESULT_PATTERNS output)"

text \<open>
  \<^verbatim>\<open>/\bw\b/\<close> for a word \<open>w\<close> of word characters: \<open>w\<close> stands where the character before
  is not a word character (or there is none) and neither is the one behind.
\<close>

fun bword_from :: "string \<Rightarrow> bool \<Rightarrow> string \<Rightarrow> bool" where
  "bword_from w prev [] \<longleftrightarrow> False"
| "bword_from w prev (c # cs) \<longleftrightarrow>
     (\<not> prev \<and> startsWith (c # cs) w \<and>
        (case drop (length w) (c # cs) of [] \<Rightarrow> True | d # _ \<Rightarrow> \<not> is_word d))
     \<or> bword_from w (is_word c) cs"

definition has_bword :: "string \<Rightarrow> string \<Rightarrow> bool" where
  "has_bword w line \<longleftrightarrow> bword_from w False line"

text \<open>The markers of the fallback count; the glyph alternatives cannot occur.\<close>

definition pass_marker :: "string \<Rightarrow> bool" where
  "pass_marker line \<longleftrightarrow> has_bword ''ok'' line \<or> has_bword ''PASS'' line"

definition fail_marker :: "string \<Rightarrow> bool" where
  "fail_marker line \<longleftrightarrow> has_bword ''FAIL'' line \<or> has_bword ''fail'' line"

text \<open>\<^verbatim>\<open>/test\s+\w+\s+\.\.\.\s*FAILED/\<close> at the head of the input.\<close>

definition test_failed_pattern :: "string \<Rightarrow> unit option" where
  "test_failed_pattern s = do {
     r1 \<leftarrow> lit ''test'' s;
     r2 \<leftarrow> ws_plus r1;
     (g, r3) \<leftarrow> take_plus is_word r2;
     r4 \<leftarrow> ws_plus r3;
     r5 \<leftarrow> lit ''...'' r4;
     r6 \<leftarrow> lit ''FAILED'' (skip_ws r5);
     Some () }"

text \<open>\<^verbatim>\<open>/thread\s+'\w+'\s+panicked/\<close> at the head of the input.\<close>

definition thread_panicked_pattern :: "string \<Rightarrow> unit option" where
  "thread_panicked_pattern s = do {
     r1 \<leftarrow> lit ''thread'' s;
     r2 \<leftarrow> ws_plus r1;
     r3 \<leftarrow> lit [CHR 0x27] r2;
     (g, r4) \<leftarrow> take_plus is_word r3;
     r5 \<leftarrow> lit [CHR 0x27] r4;
     r6 \<leftarrow> ws_plus r5;
     r7 \<leftarrow> lit ''panicked'' r6;
     Some () }"

text \<open>
  \<^verbatim>\<open>FAILURE_START_PATTERNS\<close>; the two patterns that ask for a bullet or a cross glyph
  cannot match.
\<close>

definition isFailureStart :: "string \<Rightarrow> bool" where
  "isFailureStart line \<longleftrightarrow>
     word_then_space ''FAIL'' line \<or> word_then_space ''FAILED'' line
     \<or> first_match test_failed_pattern line \<noteq> None
     \<or> first_match thread_panicked_pattern line \<noteq> None"

text \<open>The loop variables of the failure scanner and the list it fills.\<close>

record failure_scan =
  failures :: "string list"
  inFailure :: bool
  currentFailure :: "string list"
  blankCountF :: nat

definition failure_init :: failure_scan where
  "failure_init = \<lparr>failures = [], inFailure = False, currentFailure = [], blankCountF = 0\<rparr>"

definition failure_step :: "failure_scan \<Rightarrow> string \<Rightarrow> failure_scan" where
  "failure_step s line =
     (if isFailureStart line then
        s\<lparr>failures := (if inFailure s \<and> 0 < length (currentFailure s)
                        then failures s @ [join_with [nl] (currentFailure s)] else failures s),
          inFailure := True, currentFailure := [line], blankCountF := 0\<rparr>
      else if inFailure s then
        (if trim line = [] then
           (if 2 \<le> blankCountF s + 1 \<and> 3 < length (currentFailure s)
            then s\<lparr>blankCountF := blankCountF s + 1,
                   failures := failures s @ [join_with [nl] (currentFailure s)],
                   inFailure := False, currentFailure := []\<rparr>
            else s\<lparr>blankCountF := blankCountF s + 1,
                   currentFailure := currentFailure s @ [line]\<rparr>)
         else if starts_with_space line \<or> startsWith line ''-'' then
           s\<lparr>currentFailure := currentFailure s @ [line], blankCountF := 0\<rparr>
         else s\<lparr>failures := failures s @ [join_with [nl] (currentFailure s)],
                 inFailure := False, currentFailure := []\<rparr>)
      else s)"

definition failure_flush :: "failure_scan \<Rightarrow> failure_scan" where
  "failure_flush s =
     (if inFailure s \<and> 0 < length (currentFailure s)
      then s\<lparr>failures := failures s @ [join_with [nl] (currentFailure s)]\<rparr> else s)"

definition scan_failures :: "string list \<Rightarrow> string list" where
  "scan_failures lines = failures (failure_flush (foldl failure_step failure_init lines))"

text \<open>\<^verbatim>\<open>t.slice(0, n)\<close> with three dots when something was cut.\<close>

definition cut :: "nat \<Rightarrow> string \<Rightarrow> string" where
  "cut n t = take n t @ (if n < length t then ''...'' else [])"

definition format_failure :: "string \<Rightarrow> string list" where
  "format_failure failure =
     (let lines = split_on nl failure in
      [''   - '' @ cut 70 (hd lines)]
      @ map (\<lambda>line. ''     '' @ cut 65 line) (filter (\<lambda>line. trim line \<noteq> []) (take 3 (drop 1 lines)))
      @ (if 4 < length lines
         then [''     ... ('' @ show_nat (length lines - 4) @ '' more lines)''] else []))"

text \<open>The summary after the statistics, the fallback count and the failure scan.\<close>

record TestSummary =
  passed :: nat
  failed :: nat
  skipped :: nat
  failure_list :: "string list"

definition test_summary :: "string \<Rightarrow> TestSummary" where
  "test_summary output =
     (let lines = split_on nl output;
          stats = (case extractTestStats output of None \<Rightarrow> (0, 0, 0) | Some t \<Rightarrow> t);
          p0 = fst stats; f0 = fst (snd stats); sk = snd (snd stats);
          fallback = (p0 = 0 \<and> f0 = 0);
          p = (if fallback then length (filter pass_marker lines) else p0);
          f = (if fallback then length (filter fail_marker lines) else f0)
      in \<lparr>passed = p, failed = f, skipped = sk,
          failure_list = (if 0 < f then scan_failures lines else [])\<rparr>)"

definition format_test :: "TestSummary \<Rightarrow> string" where
  "format_test summary =
     join_with [nl]
       ([''Test Results:'', ''   PASS: '' @ show_nat (passed summary) @ '' passed'']
        @ (if 0 < failed summary then [''   FAIL: '' @ show_nat (failed summary) @ '' failed''] else [])
        @ (if 0 < skipped summary then [''   SKIP: '' @ show_nat (skipped summary) @ '' skipped''] else [])
        @ (if 0 < failed summary \<and> 0 < length (failure_list summary)
           then [nl # ''   Failures:'']
                @ concat (map format_failure (take 5 (failure_list summary)))
                @ (if 5 < length (failure_list summary)
                   then [''   ... and '' @ show_nat (length (failure_list summary) - 5) @ '' more failures'']
                   else [])
           else []))"

definition aggregateTestOutput :: "string \<Rightarrow> string option \<Rightarrow> string option" where
  "aggregateTestOutput output command =
     (if \<not> isTestCommand command then None
      else Some (format_test (test_summary output)))"

section \<open>Search grouper\<close>

definition SEARCH_COMMANDS :: "string list" where
  "SEARCH_COMMANDS = [''grep'', ''rg'', ''find'', ''ack'', ''ag'']"

definition isSearchCommand :: "string option \<Rightarrow> bool" where
  "isSearchCommand command \<longleftrightarrow>
     (case command of
        None \<Rightarrow> False
      | Some c \<Rightarrow> c \<noteq> [] \<and> list_ex (\<lambda>sc. str_includes (toLowerCase c) sc) SEARCH_COMMANDS)"

record SearchResult =
  fileName :: string
  lineNumber :: string
  content :: string

text \<open>What \<^verbatim>\<open>.\<close> matches: every character but a line terminator (LF, CR).\<close>

definition is_dot :: "char \<Rightarrow> bool" where
  "is_dot c \<longleftrightarrow> c \<noteq> nl \<and> c \<noteq> CHR 0x0D"

text \<open>
  \<^verbatim>\<open>(\d+)?:(.+)$\<close> behind the first colon: the longest run of digits (no shorter run is
  followed by a colon), a colon, and a non-empty rest without line terminator up to the
  end.  An empty run of digits is the group that took no part, and the line number is
  then \<^verbatim>\<open>"?"\<close>.
\<close>

definition match_tail :: "string \<Rightarrow> (string \<times> string) option" where
  "match_tail cs =
     (case dropWhile is_digit cs of
        [] \<Rightarrow> None
      | d # rest \<Rightarrow>
          if d = CHR '':'' \<and> rest \<noteq> [] \<and> list_all is_dot rest
          then Some (if takeWhile is_digit cs = [] then ''?'' else takeWhile is_digit cs, rest)
          else None)"

text \<open>
  \<^verbatim>\<open>/^(.+?):(\d+)?:(.+)$/\<close>: the lazy first group grows one character at a time; the
  first argument is what it holds so far.
\<close>

fun match_from :: "string \<Rightarrow> string \<Rightarrow> SearchResult option" where
  "match_from f [] = None"
| "match_from f (c # cs) =
     (case (if f \<noteq> [] \<and> c = CHR '':'' then match_tail cs else None) of
        Some (n, t) \<Rightarrow> Some \<lparr>fileName = f, lineNumber = n, content = t\<rparr>
      | None \<Rightarrow> if is_dot c then match_from (f @ [c]) cs else None)"

text \<open>One round of the parsing loop: a blank line is passed over before the pattern is tried.\<close>

definition parse_search_line :: "string \<Rightarrow> SearchResult option" where
  "parse_search_line l = (if trim l = [] then None else match_from [] l)"

text \<open>The \<^verbatim>\<open>Map\<close> from file to results, in insertion order.\<close>

fun add_result :: "SearchResult \<Rightarrow> (string \<times> SearchResult list) list \<Rightarrow> (string \<times> SearchResult list) list" where
  "add_result r [] = [(fileName r, [r])]"
| "add_result r ((k, rs) # m) =
     (if k = fileName r then (k, rs @ [r]) # m else (k, rs) # add_result r m)"

definition group_by_file :: "SearchResult list \<Rightarrow> (string \<times> SearchResult list) list" where
  "group_by_file results = foldl (\<lambda>m r. add_result r m) [] results"

text \<open>
  \<^verbatim>\<open>entries.sort((a, b) => a[0].localeCompare(b[0]))\<close>: a stable sort by the comparison of
  the host, which is a parameter here.
\<close>

fun insert_entry :: "(string \<Rightarrow> string \<Rightarrow> int) \<Rightarrow> (string \<times> 'a) \<Rightarrow> (string \<times> 'a) list \<Rightarrow> (string \<times> 'a) list" where
  "insert_entry cmp x [] = [x]"
| "insert_entry cmp x (y # ys) =
     (if cmp (fst x) (fst y) \<le> 0 then x # y # ys else y # insert_entry cmp x ys)"

definition sort_entries :: "(string \<Rightarrow> string \<Rightarrow> int) \<Rightarrow> (string \<times> 'a) list \<Rightarrow> (string \<times> 'a) list" where
  "sort_entries cmp xs = foldr (insert_entry cmp) xs []"

definition format_match :: "SearchResult \<Rightarrow> string" where
  "format_match m =
     (let cleaned = trim (content m);
          cleaned = (if 70 < length cleaned then take 67 cleaned @ ''...'' else cleaned)
      in ''    '' @ lineNumber m @ '': '' @ cleaned @ [nl])"

text \<open>The loop over the sorted files: the text it adds and the number of matches shown.\<close>

fun show_files :: "nat \<Rightarrow> (string \<times> SearchResult list) list \<Rightarrow> nat \<Rightarrow> string \<times> nat" where
  "show_files maxResults [] shown = ([], shown)"
| "show_files maxResults ((f, matches) # files) shown =
     (if maxResults \<le> shown then ([], shown)
      else
        (case show_files maxResults files (shown + length (take 10 matches)) of
           (txt, shown') \<Rightarrow>
             (''> '' @ compactPath f 50 @ '' ('' @ show_nat (length matches) @ '' matches):'' @ [nl]
              @ concat (map format_match (take 10 matches))
              @ (if 10 < length matches
                 then ''  +'' @ show_nat (length matches - 10) @ '' more'' @ [nl] else [])
              @ [nl] @ txt,
              shown')))"

definition groupSearchResults :: "(string \<Rightarrow> string \<Rightarrow> int) \<Rightarrow> string \<Rightarrow> nat \<Rightarrow> string option" where
  "groupSearchResults localeCompare output maxResults =
     (let results = List.map_filter parse_search_line (split_on nl output) in
      if length results = 0 then None
      else
        let byFile = group_by_file results in
        (case show_files maxResults (sort_entries localeCompare byFile) 0 of
           (txt, shown) \<Rightarrow>
             Some (show_nat (length results) @ '' matches in '' @ show_nat (length byFile)
                   @ '' files:'' @ [nl, nl] @ txt
                   @ (if shown < length results
                      then ''... +'' @ show_nat (length results - shown) @ '' more'' @ [nl]
                      else []))))"

section \<open>Source filter\<close>

datatype Language =
  Typescript | Javascript | Python | Rust | Go | Java | CLang | Cpp | Unknown

record CommentPatterns =
  lineComment :: "string option"
  blockStart :: "string option"
  blockEnd :: "string option"
  docComment :: "string option"

fun COMMENT_PATTERNS :: "Language \<Rightarrow> CommentPatterns" where
  "COMMENT_PATTERNS Typescript =
     \<lparr>lineComment = Some ''//'', blockStart = Some ''/*'', blockEnd = Some ''*/'', docComment = Some ''/**''\<rparr>"
| "COMMENT_PATTERNS Javascript =
     \<lparr>lineComment = Some ''//'', blockStart = Some ''/*'', blockEnd = Some ''*/'', docComment = Some ''/**''\<rparr>"
| "COMMENT_PATTERNS Python =
     \<lparr>lineComment = Some ''#'', blockStart = None, blockEnd = None,
      docComment = Some [CHR 0x22, CHR 0x22, CHR 0x22]\<rparr>"
| "COMMENT_PATTERNS Rust =
     \<lparr>lineComment = Some ''//'', blockStart = Some ''/*'', blockEnd = Some ''*/'', docComment = Some ''///''\<rparr>"
| "COMMENT_PATTERNS Go =
     \<lparr>lineComment = Some ''//'', blockStart = Some ''/*'', blockEnd = Some ''*/'', docComment = Some ''//''\<rparr>"
| "COMMENT_PATTERNS Java =
     \<lparr>lineComment = Some ''//'', blockStart = Some ''/*'', blockEnd = Some ''*/'', docComment = Some ''/**''\<rparr>"
| "COMMENT_PATTERNS CLang =
     \<lparr>lineComment = Some ''//'', blockStart = Some ''/*'', blockEnd = Some ''*/'', docComment = Some ''/*''\<rparr>"
| "COMMENT_PATTERNS Cpp =
     \<lparr>lineComment = Some ''//'', blockStart = Some ''/*'', blockEnd = Some ''*/'', docComment = Some ''/*''\<rparr>"
| "COMMENT_PATTERNS Unknown =
     \<lparr>lineComment = None, blockStart = None, blockEnd = None, docComment = None\<rparr>"

text \<open>\<^verbatim>\<open>p && t.startsWith(p)\<close> and \<^verbatim>\<open>p && t.endsWith(p)\<close> for an optional marker \<open>p\<close>.\<close>

definition starts_marker :: "string option \<Rightarrow> string \<Rightarrow> bool" where
  "starts_marker p t \<longleftrightarrow> (case p of None \<Rightarrow> False | Some m \<Rightarrow> m \<noteq> [] \<and> startsWith t m)"

definition ends_marker :: "string option \<Rightarrow> string \<Rightarrow> bool" where
  "ends_marker p t \<longleftrightarrow> (case p of None \<Rightarrow> False | Some m \<Rightarrow> m \<noteq> [] \<and> endsWith t m)"

text \<open>\<^verbatim>\<open>s.indexOf(p)\<close>; \<^term>\<open>None\<close> is \<^verbatim>\<open>-1\<close>.\<close>

fun indexOf :: "string \<Rightarrow> string \<Rightarrow> nat option" where
  "indexOf [] p = (if p = [] then Some 0 else None)"
| "indexOf (c # cs) p = (if startsWith (c # cs) p then Some 0 else map_option Suc (indexOf cs p))"

text \<open>The lines kept so far and the two flags of the minimal pass.\<close>

record minimal_scan =
  resultM :: "string list"
  inBlockComment :: bool
  inDocstring :: bool

definition minimal_init :: minimal_scan where
  "minimal_init = \<lparr>resultM = [], inBlockComment = False, inDocstring = False\<rparr>"

text \<open>The part of a round behind the handling of block comments: line comments.\<close>

definition strip_line_comment :: "CommentPatterns \<Rightarrow> string \<Rightarrow> string" where
  "strip_line_comment patterns l =
     (case lineComment patterns of
        None \<Rightarrow> l
      | Some m \<Rightarrow>
          if m = [] then l
          else (case indexOf l m of
                  None \<Rightarrow> l
                | Some commentIndex \<Rightarrow>
                    if starts_marker (docComment patterns) (trim l) then l
                    else take commentIndex l))"

text \<open>One round of the loop of \<^verbatim>\<open>filterMinimal\<close>.\<close>

definition minimal_step :: "Language \<Rightarrow> minimal_scan \<Rightarrow> string \<Rightarrow> minimal_scan" where
  "minimal_step language s l =
     (let patterns = COMMENT_PATTERNS language; trimmed = trim l in
      if language = Python \<and> starts_marker (docComment patterns) trimmed then
        s\<lparr>inDocstring := \<not> inDocstring s, resultM := resultM s @ [l]\<rparr>
      else if language = Python \<and> docComment patterns \<noteq> None \<and> inDocstring s then
        s\<lparr>resultM := resultM s @ [l]\<rparr>
      else if starts_marker (blockStart patterns) trimmed
              \<and> starts_marker (docComment patterns) trimmed then
        s\<lparr>resultM := resultM s @ [l]\<rparr>
      else if starts_marker (blockStart patterns) trimmed \<or> inBlockComment s then
        s\<lparr>inBlockComment := \<not> ends_marker (blockEnd patterns) trimmed\<rparr>
      else s\<lparr>resultM := resultM s @ [strip_line_comment patterns l]\<rparr>)"

text \<open>\<^verbatim>\<open>/\n{3,}/\<close> at the head of the input: a run of three or more line feeds, taken whole.\<close>

definition nl_run :: "string \<Rightarrow> nat option" where
  "nl_run s =
     (if 3 \<le> length (takeWhile (\<lambda>c. c = nl) s) then Some (length (takeWhile (\<lambda>c. c = nl) s))
      else None)"

text \<open>The lines the loop keeps, joined: the text before blank lines are normalised.\<close>

definition minimal_pass :: "string \<Rightarrow> Language \<Rightarrow> string" where
  "minimal_pass code language =
     join_with [nl] (resultM (foldl (minimal_step language) minimal_init (split_on nl code)))"

definition filterMinimal :: "string \<Rightarrow> Language \<Rightarrow> string" where
  "filterMinimal code language =
     (if language = Unknown then code
      else trim (replace_all nl_run [nl, nl] (minimal_pass code language)))"

text \<open>\<^verbatim>\<open>/^(use\s+|import\s+|from\s+|require\(|#include)/\<close>\<close>

definition importPattern :: "string \<Rightarrow> bool" where
  "importPattern t \<longleftrightarrow>
     word_then_space ''use'' t \<or> word_then_space ''import'' t \<or> word_then_space ''from'' t
     \<or> startsWith t ''require('' \<or> startsWith t ''#include''"

text \<open>An optional \<^verbatim>\<open>(word\s+)?\<close> at the head of the input: what is left behind it.\<close>

definition opt_word :: "string \<Rightarrow> string \<Rightarrow> string" where
  "opt_word w t = (if word_then_space w t then skip_ws (drop (length w) t) else t)"

definition SIGNATURE_KEYWORDS :: "string list" where
  "SIGNATURE_KEYWORDS =
     [''fn'', ''def'', ''function'', ''func'', ''class'', ''struct'', ''enum'', ''trait'',
      ''interface'', ''type'']"

text \<open>\<^verbatim>\<open>keyword\s+\w+\<close> at the head of the input.\<close>

definition keyword_name :: "string \<Rightarrow> string \<Rightarrow> bool" where
  "keyword_name t k \<longleftrightarrow>
     word_then_space k t \<and>
     (case skip_ws (drop (length k) t) of [] \<Rightarrow> False | c # _ \<Rightarrow> is_word c)"

text \<open>
  \<^verbatim>\<open>/^(pub\s+)?(async\s+)?(fn|def|function|func|class|struct|enum|trait|interface|type)\s+\w+/\<close>.
  No keyword begins with \<^verbatim>\<open>pub\<close> or \<^verbatim>\<open>async\<close>, so an optional prefix that is present must
  be taken.
\<close>

definition signaturePattern :: "string \<Rightarrow> bool" where
  "signaturePattern t \<longleftrightarrow>
     list_ex (keyword_name (opt_word ''async'' (opt_word ''pub'' t))) SIGNATURE_KEYWORDS"

text \<open>\<^verbatim>\<open>/^(const|static|let|pub\s+const|pub\s+static)\s+/\<close>\<close>

definition constPattern :: "string \<Rightarrow> bool" where
  "constPattern t \<longleftrightarrow>
     word_then_space ''const'' t \<or> word_then_space ''static'' t \<or> word_then_space ''let'' t
     \<or> (word_then_space ''pub'' t \<and>
         (word_then_space ''const'' (skip_ws (drop 3 t))
          \<or> word_then_space ''static'' (skip_ws (drop 3 t))))"

record aggressive_scan =
  resultA :: "string list"
  braceDepth :: int
  inImplementation :: bool

definition aggressive_init :: aggressive_scan where
  "aggressive_init = \<lparr>resultA = [], braceDepth = 0, inImplementation = False\<rparr>"

text \<open>One round of the loop of \<^verbatim>\<open>filterAggressive\<close>.\<close>

definition aggressive_step :: "aggressive_scan \<Rightarrow> string \<Rightarrow> aggressive_scan" where
  "aggressive_step s l =
     (let trimmed = trim l in
      if importPattern trimmed then s\<lparr>resultA := resultA s @ [l]\<rparr>
      else if signaturePattern trimmed then
        s\<lparr>resultA := resultA s @ [l], inImplementation := True, braceDepth := 0\<rparr>
      else if inImplementation s then
        (let depth = braceDepth s + int (count_list trimmed (CHR ''{''))
                       - int (count_list trimmed (CHR ''}''));
             kept = (if depth \<le> 1 \<and> (trimmed = ''{'' \<or> trimmed = ''}'' \<or> endsWith trimmed ''{'')
                     then resultA s @ [l] else resultA s)
         in if depth \<le> 0 then
              \<lparr>resultA = (if trimmed \<noteq> [] \<and> trimmed \<noteq> ''}''
                          then kept @ [''    // ... implementation''] else kept),
               braceDepth = depth, inImplementation = False\<rparr>
            else \<lparr>resultA = kept, braceDepth = depth, inImplementation = True\<rparr>)
      else if constPattern trimmed then s\<lparr>resultA := resultA s @ [l]\<rparr>
      else s)"

definition filterAggressive :: "string \<Rightarrow> Language \<Rightarrow> string" where
  "filterAggressive code language =
     (if language = Unknown then filterMinimal code language
      else trim (join_with [nl]
             (resultA (foldl aggressive_step aggressive_init
                         (split_on nl (filterMinimal code language))))))"

section \<open>Smart truncator\<close>

text \<open>
  \<^verbatim>\<open>/^(import|use|from|require|#include|fn|def|function|func|class|struct|enum|trait|interface|type|const|static|let|pub\s)/\<close>
\<close>

definition IMPORTANT_WORDS :: "string list" where
  "IMPORTANT_WORDS =
     [''import'', ''use'', ''from'', ''require'', ''#include'', ''fn'', ''def'', ''function'',
      ''func'', ''class'', ''struct'', ''enum'', ''trait'', ''interface'', ''type'', ''const'',
      ''static'', ''let'']"

definition importantPattern :: "string \<Rightarrow> bool" where
  "importantPattern t \<longleftrightarrow> list_ex (startsWith t) IMPORTANT_WORDS \<or> word_then_space ''pub'' t"

definition show_int :: "int \<Rightarrow> string" where
  "show_int i = (if i < 0 then CHR ''-'' # show_nat (nat (- i)) else show_nat (nat i))"

text \<open>The marker line that stands for a run of dropped lines, with the number it shows.\<close>

definition omitted_marker :: "int \<Rightarrow> string" where
  "omitted_marker n = ''    // ... '' @ show_int n @ '' lines omitted''"

record truncate_scan =
  resultT :: "string list"
  keptLines :: nat
  skippedSection :: bool

definition truncate_init :: truncate_scan where
  "truncate_init = \<lparr>resultT = [], keptLines = 0, skippedSection = False\<rparr>"

text \<open>
  The body of the loop without the test for the \<^verbatim>\<open>break\<close>.  The limit is an integer, so
  \<^verbatim>\<open>keptLines < maxLines / 2\<close> is \<open>2 * keptLines < maxLines\<close>; \<open>totalLines\<close> is \<^verbatim>\<open>lines.length\<close>.
\<close>

definition truncate_step :: "int \<Rightarrow> nat \<Rightarrow> truncate_scan \<Rightarrow> string \<Rightarrow> truncate_scan" where
  "truncate_step maxLines totalLines s l =
     (if importantPattern (trim l) \<or> 2 * int (keptLines s) < maxLines then
        \<lparr>resultT =
           (if skippedSection s
            then resultT s @
                 [omitted_marker (int totalLines - int (length (resultT s)) - int (keptLines s))]
            else resultT s) @ [l],
         keptLines = keptLines s + 1, skippedSection = False\<rparr>
      else s\<lparr>skippedSection := True\<rparr>)"

text \<open>The loop: it stops behind the line with which \<open>maxLines - 1\<close> lines are kept.\<close>

fun truncate_loop :: "int \<Rightarrow> nat \<Rightarrow> string list \<Rightarrow> truncate_scan \<Rightarrow> truncate_scan" where
  "truncate_loop maxLines totalLines [] s = s"
| "truncate_loop maxLines totalLines (l # ls) s =
     (if maxLines - 1 \<le> int (keptLines (truncate_step maxLines totalLines s l))
      then truncate_step maxLines totalLines s l
      else truncate_loop maxLines totalLines ls (truncate_step maxLines totalLines s l))"

definition summary_line :: "nat \<Rightarrow> nat \<Rightarrow> string" where
  "summary_line totalLines kept =
     ''// ... '' @ show_int (int totalLines - int kept) @ '' more lines (total: '' @ show_nat totalLines @ '')''"

text \<open>The language takes no part in the truncation.\<close>

definition smartTruncate :: "string \<Rightarrow> int \<Rightarrow> Language \<Rightarrow> string" where
  "smartTruncate code maxLines language =
     (let lines = split_on nl code in
      if int (length lines) \<le> maxLines then code
      else
        let s = truncate_loop maxLines (length lines) lines truncate_init in
        join_with [nl]
          (resultT s @
           (if skippedSection s \<or> keptLines s < length lines
            then [summary_line (length lines) (keptLines s)] else [])))"

definition filterSourceCode :: "string \<Rightarrow> Language \<Rightarrow> string \<Rightarrow> string" where
  "filterSourceCode code language level =
     (if level = ''none'' then code
      else if level = ''minimal'' then filterMinimal code language
      else if level = ''aggressive'' then filterAggressive code language
      else code)"

section \<open>Vocabulary for the statement about smart truncation\<close>

text \<open>A line is important when its trimmed form matches the pattern of important lines.\<close>

definition important :: "string \<Rightarrow> bool" where
  "important l \<longleftrightarrow> importantPattern (trim l)"

text \<open>
  The shortest prefix of a list that holds \<open>n\<close> elements with the property \<open>P\<close>, and the
  whole list when it holds fewer: the lines the scan reads until its budget of kept lines
  is used up.
\<close>

fun take_kept :: "nat \<Rightarrow> ('a \<Rightarrow> bool) \<Rightarrow> 'a list \<Rightarrow> 'a list" where
  "take_kept 0 P xs = []"
| "take_kept (Suc n) P [] = []"
| "take_kept (Suc n) P (x # xs) = x # take_kept (if P x then n else Suc n) P xs"

text \<open>
  In a list of flags (kept or dropped, in the order of the lines) the number of places
  where a dropped line stands right before a kept one: the number of contiguous runs of
  dropped lines that are followed by a kept line.
\<close>

fun closed_drop_runs :: "bool list \<Rightarrow> nat" where
  "closed_drop_runs (a # b # bs) = (if \<not> a \<and> b then 1 else 0) + closed_drop_runs (b # bs)"
| "closed_drop_runs bs = 0"

text \<open>
  What the output is to hold for a list of scanned lines: every kept line in its place,
  and a marker (\<^term>\<open>None\<close>) before a kept line exactly when the line before it was
  dropped, so one marker for each run of dropped lines that a kept line follows.  The
  flag says whether the line before the list was dropped.
\<close>

fun marked_lines :: "bool \<Rightarrow> string list \<Rightarrow> string option list" where
  "marked_lines d [] = []"
| "marked_lines d (l # ls) =
     (if important l then (if d then [None] else []) @ Some l # marked_lines False ls
      else marked_lines True ls)"

text \<open>
  A line of the output stands for an entry of that list: it is the kept line itself, or
  it is a marker line, whatever number the marker shows.
\<close>

definition emitted_as :: "string \<Rightarrow> string option \<Rightarrow> bool" where
  "emitted_as out e \<longleftrightarrow> (case e of Some l \<Rightarrow> out = l | None \<Rightarrow> (\<exists>n. out = omitted_marker n))"

section \<open>Facts about the string helpers\<close>

lemma split_on_nonempty: "split_on c s \<noteq> []"
  by (induction s) (auto split: list.splits)

lemma split_on_length_pos: "0 < length (split_on c s)"
  using split_on_nonempty [of c s] by simp


section \<open>Path compactor: what it returns\<close>

lemma compactPath_short: "length path \<le> maxLength \<Longrightarrow> compactPath path maxLength = path"
  by (simp add: compactPath_def)

lemma compactPath_long:
  assumes "maxLength < length path" and "4 \<le> length (split_on (CHR ''/'') path)"
  shows "compactPath path maxLength =
           hd (split_on (CHR ''/'') path) @ ''/.../'' @
           split_on (CHR ''/'') path ! (length (split_on (CHR ''/'') path) - 2) @ ''/'' @
           last (split_on (CHR ''/'') path)"
proof -
  let ?parts = "split_on (CHR ''/'') path"
  have ne: "?parts \<noteq> []" by (rule split_on_nonempty)
  have h: "?parts ! 0 = hd ?parts" using ne by (simp add: hd_conv_nth)
  have l: "?parts ! (length ?parts - Suc 0) = last ?parts" using ne by (simp add: last_conv_nth)
  from assms show ?thesis
    by (simp add: compactPath_def Let_def h l)
qed

text \<open>
  C6.  For every limit \<open>maxLength\<close>, a path longer than the limit with at least four
  slash-separated segments is compacted to first segment, \<^verbatim>\<open>/.../\<close>, second-to-last
  segment, last segment; a path no longer than the limit is returned as it is.  The
  search grouper calls the compactor with the limit 50, the linter aggregator with the
  limit 40: the statement holds for both.
\<close>

theorem compactPath_spec:
  "(length path \<le> maxLength \<longrightarrow> compactPath path maxLength = path) \<and>
   (maxLength < length path \<and> 4 \<le> length (split_on (CHR ''/'') path) \<longrightarrow>
      compactPath path maxLength =
        hd (split_on (CHR ''/'') path) @ ''/.../'' @
        split_on (CHR ''/'') path ! (length (split_on (CHR ''/'') path) - 2) @ ''/'' @
        last (split_on (CHR ''/'') path))"
  using compactPath_short compactPath_long by blast

theorem compactPath_spec_witness:
  "50 < length ''src/components/dashboard/widgets/charts/LineChartPanel.tsx'' \<and>
   4 \<le> length (split_on (CHR ''/'') ''src/components/dashboard/widgets/charts/LineChartPanel.tsx'') \<and>
   compactPath ''src/components/dashboard/widgets/charts/LineChartPanel.tsx'' 50 =
     ''src/.../charts/LineChartPanel.tsx'' \<and>
   length ''/a/b/c/d/e/file.ts'' \<le> 50 \<and>
   compactPath ''/a/b/c/d/e/file.ts'' 50 = ''/a/b/c/d/e/file.ts'' \<and>
   40 < length ''src/components/dashboard/widgets/Panel.tsx'' \<and>
   length ''src/components/dashboard/widgets/Panel.tsx'' \<le> 50 \<and>
   4 \<le> length (split_on (CHR ''/'') ''src/components/dashboard/widgets/Panel.tsx'') \<and>
   compactPath ''src/components/dashboard/widgets/Panel.tsx'' 40 = ''src/.../widgets/Panel.tsx'' \<and>
   compactPath ''src/components/dashboard/widgets/Panel.tsx'' 50 =
     ''src/components/dashboard/widgets/Panel.tsx'' \<and>
   length ''/a/b/c/d/e/file.ts'' \<le> 40 \<and>
   compactPath ''/a/b/c/d/e/file.ts'' 40 = ''/a/b/c/d/e/file.ts''"
  using compactPath_spec [of "''src/components/dashboard/widgets/charts/LineChartPanel.tsx''" 50]
    compactPath_spec [of "''/a/b/c/d/e/file.ts''" 50]
    compactPath_spec [of "''src/components/dashboard/widgets/Panel.tsx''" 40]
    compactPath_spec [of "''src/components/dashboard/widgets/Panel.tsx''" 50]
    compactPath_spec [of "''/a/b/c/d/e/file.ts''" 40]
  by (simp add: hd_conv_nth last_conv_nth)

text \<open>
  The example of the claim: the path has 18 characters, so the length guard returns it
  unchanged, at the limit 50 and at the limit 40.
\<close>

theorem compactPath_example_counterexample:
  "compactPath ''/a/b/c/d/e/file.ts'' 50 \<noteq> ''a/.../d/file.ts'' \<and>
   compactPath ''/a/b/c/d/e/file.ts'' 40 \<noteq> ''a/.../d/file.ts''"
  by (simp add: compactPath_def)

section \<open>ANSI stripper: fixed points\<close>

lemma replace_all_no_match:
  assumes "\<And>c cs. c \<noteq> esc \<Longrightarrow> m (c # cs) = None"
  shows "esc \<notin> set x \<Longrightarrow> replace_all m rep x = x"
proof (induction x)
  case Nil
  show ?case by simp
next
  case (Cons a x)
  then have "a \<noteq> esc" by auto
  then have "m (a # x) = None" by (rule assms)
  with Cons show ?case by simp
qed

lemma csi_match_head: "c \<noteq> esc \<Longrightarrow> csi_match (c # cs) = None"
  by (cases cs) simp_all

lemma osc_param_match_head: "c \<noteq> esc \<Longrightarrow> osc_param_match (c # cs) = None"
  by (cases cs) simp_all

lemma osc_any_match_head: "c \<noteq> esc \<Longrightarrow> osc_any_match (c # cs) = None"
  by (cases cs) simp_all

lemma stripAnsi_no_esc: "esc \<notin> set x \<Longrightarrow> stripAnsi x = x"
  by (simp add: stripAnsi_def replace_all_no_match csi_match_head osc_param_match_head
      osc_any_match_head)

lemma replace_all_unmatched: "\<not> match_somewhere m s \<Longrightarrow> replace_all m rep s = s"
  by (induction s) (auto split: option.splits)

lemma replace_all_length_le: "length (replace_all m [] s) \<le> length s"
proof (induction "length s" arbitrary: s rule: less_induct)
  case less
  show ?case
  proof (cases s)
    case Nil
    then show ?thesis by simp
  next
    case (Cons c cs)
    have tail: "length (replace_all m [] cs) \<le> length cs"
      using Cons by (intro less) simp
    show ?thesis
    proof (cases "m (c # cs)")
      case None
      with Cons tail show ?thesis by simp
    next
      case (Some n)
      have "length (replace_all m [] (drop (n - 1) cs)) \<le> length (drop (n - 1) cs)"
        using Cons by (intro less) simp
      also have "\<dots> \<le> length cs" by simp
      finally have "length (replace_all m [] (drop (n - 1) cs)) \<le> Suc (length cs)"
        by (rule le_SucI)
      with Some Cons tail show ?thesis by simp
    qed
  qed
qed

lemma replace_all_length_less:
  assumes "\<And>z n. m z = Some n \<Longrightarrow> 0 < n"
  shows "match_somewhere m s \<Longrightarrow> length (replace_all m [] s) < length s"
proof (induction s)
  case Nil
  then show ?case by simp
next
  case (Cons c cs)
  show ?case
  proof (cases "m (c # cs)")
    case None
    with Cons show ?thesis by simp
  next
    case (Some n)
    then have "0 < n" by (rule assms)
    moreover have "length (replace_all m [] (drop (n - 1) cs)) \<le> length (drop (n - 1) cs)"
      by (rule replace_all_length_le)
    moreover have "length (drop (n - 1) cs) \<le> length cs" by simp
    ultimately have "length (replace_all m [] (drop (n - 1) cs)) < Suc (length cs)" by simp
    with Some \<open>0 < n\<close> show ?thesis by simp
  qed
qed

lemma csi_match_pos: "csi_match z = Some n \<Longrightarrow> 0 < n"
  by (cases z rule: csi_match.cases) (auto split: if_splits list.splits)

lemma osc_param_match_pos: "osc_param_match z = Some n \<Longrightarrow> 0 < n"
  by (cases z rule: osc_param_match.cases) (auto split: if_splits)

lemma osc_any_match_pos: "osc_any_match z = Some n \<Longrightarrow> 0 < n"
  by (cases z rule: osc_any_match.cases) (auto split: if_splits)

lemma stripAnsi_fixed_iff: "stripAnsi y = y \<longleftrightarrow> \<not> has_sequence y"
proof
  assume fixed: "stripAnsi y = y"
  let ?p1 = "replace_all csi_match [] y"
  let ?p2 = "replace_all osc_param_match [] ?p1"
  let ?p3 = "replace_all osc_any_match [] ?p2"
  have l1: "length ?p1 \<le> length y" and l2: "length ?p2 \<le> length ?p1"
    and l3: "length ?p3 \<le> length ?p2"
    by (rule replace_all_length_le)+
  have len: "length ?p3 = length y" using fixed by (simp add: stripAnsi_def)
  show "\<not> has_sequence y"
  proof
    assume "has_sequence y"
    then consider "match_somewhere csi_match y"
      | "\<not> match_somewhere csi_match y" "match_somewhere osc_param_match y"
      | "\<not> match_somewhere csi_match y" "\<not> match_somewhere osc_param_match y"
        "match_somewhere osc_any_match y"
      by (auto simp: has_sequence_def)
    then show False
    proof cases
      case 1
      have "length ?p1 < length y"
        by (rule replace_all_length_less [of csi_match y]) (erule csi_match_pos, rule 1)
      with l2 l3 len show False by simp
    next
      case 2
      then have e: "?p1 = y" by (simp add: replace_all_unmatched)
      have "length (replace_all osc_param_match [] y) < length y"
        by (rule replace_all_length_less [of osc_param_match y]) (erule osc_param_match_pos, rule 2(2))
      with e l3 len show False by simp
    next
      case 3
      then have e: "?p1 = y" "?p2 = y" by (simp_all add: replace_all_unmatched)
      have "length (replace_all osc_any_match [] y) < length y"
        by (rule replace_all_length_less [of osc_any_match y]) (erule osc_any_match_pos, rule 3(3))
      with e len show False by simp
    qed
  qed
next
  assume "\<not> has_sequence y"
  then show "stripAnsi y = y"
    by (simp add: has_sequence_def stripAnsi_def replace_all_unmatched)
qed

text \<open>
  C4.  Stripping twice equals stripping once exactly for the texts whose stripped form
  holds no sequence that one of the three patterns matches.  That is so for every text
  without an escape byte, which the stripper leaves unchanged, and for every text whose
  stripped form has no escape byte.
\<close>

theorem stripAnsi_idempotent_iff:
  "(stripAnsi (stripAnsi x) = stripAnsi x \<longleftrightarrow> \<not> has_sequence (stripAnsi x)) \<and>
   (esc \<notin> set x \<longrightarrow> stripAnsi x = x) \<and>
   (esc \<notin> set (stripAnsi x) \<longrightarrow> stripAnsi (stripAnsi x) = stripAnsi x)"
  by (simp add: stripAnsi_fixed_iff stripAnsi_no_esc)

theorem stripAnsi_idempotent_iff_witness:
  "stripAnsi (esc # ''[?25hdone'') = esc # ''[?25hdone'' \<and>
   \<not> has_sequence (stripAnsi (esc # ''[?25hdone'')) \<and>
   stripAnsi (stripAnsi (esc # ''[?25hdone'')) = stripAnsi (esc # ''[?25hdone'') \<and>
   has_sequence (stripAnsi (esc # esc # ''[0m[0m'')) \<and>
   esc \<notin> set ''done'' \<and> stripAnsi ''done'' = ''done'' \<and>
   esc \<notin> set (stripAnsi (esc # ''[31mred'' @ esc # ''[0m'')) \<and>
   stripAnsi (stripAnsi (esc # ''[31mred'' @ esc # ''[0m'')) = ''red''"
proof -
  have p: "stripAnsi (esc # ''[?25hdone'') = esc # ''[?25hdone''"
    by code_simp
  have q: "\<not> has_sequence (stripAnsi (esc # ''[?25hdone''))"
    by code_simp
  have i: "stripAnsi (stripAnsi (esc # ''[?25hdone'')) = stripAnsi (esc # ''[?25hdone'')"
    using stripAnsi_idempotent_iff [of "esc # ''[?25hdone''"] q by blast
  have h: "has_sequence (stripAnsi (esc # esc # ''[0m[0m''))"
    by code_simp
  have a: "stripAnsi (esc # ''[31mred'' @ esc # ''[0m'') = ''red''"
    by code_simp
  have b: "esc \<notin> set ''red''" "esc \<notin> set ''done''"
    by (simp_all add: esc_def)
  have d: "stripAnsi ''done'' = ''done''"
    using stripAnsi_idempotent_iff [of "''done''"] b(2) by blast
  have r: "esc \<notin> set (stripAnsi (esc # ''[31mred'' @ esc # ''[0m''))"
    unfolding a by (rule b(1))
  have rr: "stripAnsi (stripAnsi (esc # ''[31mred'' @ esc # ''[0m'')) = ''red''"
    using stripAnsi_idempotent_iff [of "esc # ''[31mred'' @ esc # ''[0m''"] r a by metis
  show ?thesis
    by (intro conjI p q i h b(2) d r rr)
qed

text \<open>
  Removing the inner sequence of \<^verbatim>\<open>ESC ESC [0m [0m\<close> leaves \<^verbatim>\<open>ESC [0m\<close>, which a second
  pass removes.
\<close>

theorem stripAnsi_idempotent_counterexample:
  "stripAnsi (stripAnsi (esc # esc # ''[0m[0m'')) \<noteq> stripAnsi (esc # esc # ''[0m[0m'')"
proof -
  have 1: "stripAnsi (esc # esc # ''[0m[0m'') = esc # ''[0m''"
    by code_simp
  have 2: "stripAnsi (esc # ''[0m'') = []"
    by code_simp
  show ?thesis
    by (simp add: 1 2)
qed

section \<open>Build aggregator: a build without errors and warnings\<close>

lemma build_step_quiet:
  assumes "\<not> isErrorStart l" and "\<not> isWarning l" and "\<not> inErrorBlock s"
  shows "build_step s l = s\<lparr>compiled := compiled s + (if isUnitStart l then 1 else 0)\<rparr>"
  using assms by (simp add: build_step_def)

lemma build_fold_quiet:
  assumes "\<forall>l\<in>set ls. \<not> isErrorStart l \<and> \<not> isWarning l" and "\<not> inErrorBlock s"
  shows "foldl build_step s ls = s\<lparr>compiled := compiled s + length (filter isUnitStart ls)\<rparr>"
  using assms
proof (induction ls arbitrary: s)
  case Nil
  show ?case by simp
next
  case (Cons l ls)
  have step: "build_step s l = s\<lparr>compiled := compiled s + (if isUnitStart l then 1 else 0)\<rparr>"
    using Cons.prems by (simp add: build_step_quiet)
  have "foldl build_step (build_step s l) ls =
          (build_step s l)\<lparr>compiled := compiled (build_step s l) + length (filter isUnitStart ls)\<rparr>"
    using Cons.prems by (intro Cons.IH) (simp_all add: step)
  then show ?case by (simp add: step)
qed

lemma build_scan_quiet:
  assumes "\<forall>l\<in>set ls. \<not> isErrorStart l \<and> \<not> isWarning l"
  shows "build_scan_lines ls = build_init\<lparr>compiled := length (filter isUnitStart ls)\<rparr>"
proof -
  have "\<not> inErrorBlock build_init" by (simp add: build_init_def)
  with assms have "foldl build_step build_init ls =
      build_init\<lparr>compiled := compiled build_init + length (filter isUnitStart ls)\<rparr>"
    by (rule build_fold_quiet)
  then show ?thesis by (simp add: build_scan_lines_def build_flush_def build_init_def)
qed

text \<open>
  C9.  For a build command and an output none of whose lines starts an error or is a
  warning, the report is the success line with the number of lines that start a unit
  (Compiling, Checking, Building).
\<close>

theorem filterBuildOutput_success:
  assumes "isBuildCommand (Some command)"
    and "\<forall>l\<in>set (split_on nl output). \<not> isErrorStart l \<and> \<not> isWarning l"
  shows "filterBuildOutput output (Some command) =
           Some (''[OK] Build successful ('' @
                 show_nat (length (filter isUnitStart (split_on nl output))) @
                 '' units compiled)'')"
  using assms(1) build_scan_quiet [OF assms(2)]
  by (simp add: filterBuildOutput_def format_build_def build_init_def)

theorem filterBuildOutput_success_witness:
  "isBuildCommand (Some ''go build'') \<and>
   list_all (\<lambda>l. \<not> isErrorStart l \<and> \<not> isWarning l)
     (split_on nl (''Compiling foo'' @ [nl] @ ''Compiling foo'')) \<and>
   filterBuildOutput (''Compiling foo'' @ [nl] @ ''Compiling foo'') (Some ''go build'') =
     Some ''[OK] Build successful (2 units compiled)''"
proof -
  have c: "isBuildCommand (Some ''go build'')"
    by code_simp
  have s: "split_on nl (''Compiling foo'' @ [nl] @ ''Compiling foo'') = [''Compiling foo'', ''Compiling foo'']"
    by code_simp
  have e: "\<not> isErrorStart ''Compiling foo''" "\<not> isWarning ''Compiling foo''"
    by code_simp+
  have u: "isUnitStart ''Compiling foo''"
    by code_simp
  have n: "show_nat 2 = ''2''"
    by code_simp
  have q: "\<forall>l\<in>set (split_on nl (''Compiling foo'' @ [nl] @ ''Compiling foo'')).
      \<not> isErrorStart l \<and> \<not> isWarning l"
    unfolding s using e by simp
  have "filterBuildOutput (''Compiling foo'' @ [nl] @ ''Compiling foo'') (Some ''go build'') =
     Some (''[OK] Build successful ('' @
           show_nat (length (filter isUnitStart [''Compiling foo'', ''Compiling foo''])) @
           '' units compiled)'')"
    using filterBuildOutput_success [OF c q] unfolding s .
  moreover have "length (filter isUnitStart [''Compiling foo'', ''Compiling foo'']) = 2"
    using u by simp
  ultimately have r: "filterBuildOutput (''Compiling foo'' @ [nl] @ ''Compiling foo'') (Some ''go build'') =
     Some ''[OK] Build successful (2 units compiled)''"
    by (simp add: n)
  have q': "list_all (\<lambda>l. \<not> isErrorStart l \<and> \<not> isWarning l)
     (split_on nl (''Compiling foo'' @ [nl] @ ''Compiling foo''))"
    using q by (simp only: list_all_iff)
  show ?thesis
    by (intro conjI c q' r)
qed


section \<open>Test aggregator: the summary line of cargo\<close>

text \<open>
  C1.  On the text \<^verbatim>\<open>test result: ok. 3 passed; 1 failed;\<close> the first pattern matches with
  the groups \<^verbatim>\<open>ok\<close>, \<^verbatim>\<open>3\<close> and \<^verbatim>\<open>1\<close>; the program reads the counts of passed, failed
  and skipped tests from groups 1, 2 and 3, and so reports 0 passed, 3 failed and
  1 skipped.
\<close>

theorem aggregateTestOutput_cargo_summary:
  "aggregateTestOutput ''test result: ok. 3 passed; 1 failed;'' (Some ''cargo test'') =
     Some (''Test Results:'' @ [nl] @ ''   PASS: 0 passed'' @ [nl] @ ''   FAIL: 3 failed''
           @ [nl] @ ''   SKIP: 1 skipped'')"
  by code_simp

section \<open>Test aggregator: whole-token matching of the runner name\<close>

lemma startsWith_iff: "startsWith s p \<longleftrightarrow> (\<exists>post. s = p @ post)"
proof
  assume "startsWith s p"
  then have "s = p @ drop (length p) s"
    by (metis append_take_drop_id startsWith_def)
  then show "\<exists>post. s = p @ post" ..
next
  assume "\<exists>post. s = p @ post"
  then show "startsWith s p" by (auto simp: startsWith_def)
qed

lemma token_end_iff:
  "token_end tc s \<longleftrightarrow> (\<exists>post. s = tc @ post \<and> (post = [] \<or> is_sep (hd post)))"
proof
  assume "token_end tc s"
  then have a: "startsWith s tc"
    and b: "(case drop (length tc) s of [] \<Rightarrow> True | c # _ \<Rightarrow> is_sep c)"
    by (simp_all add: token_end_def)
  from a obtain post where p: "s = tc @ post" by (auto simp: startsWith_iff)
  with b have "post = [] \<or> is_sep (hd post)" by (cases post) simp_all
  with p show "\<exists>post. s = tc @ post \<and> (post = [] \<or> is_sep (hd post))" by blast
next
  assume "\<exists>post. s = tc @ post \<and> (post = [] \<or> is_sep (hd post))"
  then obtain post where p: "s = tc @ post" and q: "post = [] \<or> is_sep (hd post)" by blast
  from q have "(case post of [] \<Rightarrow> True | c # _ \<Rightarrow> is_sep c)" by (cases post) simp_all
  with p show "token_end tc s" by (simp add: token_end_def startsWith_def)
qed

lemma token_after_sep_iff:
  "token_after_sep tc s \<longleftrightarrow>
     (\<exists>pre c post. s = pre @ c # tc @ post \<and> is_sep c \<and> (post = [] \<or> is_sep (hd post)))"
proof (induction s)
  case Nil
  show ?case by simp
next
  case (Cons a s)
  show ?case
  proof
    assume "token_after_sep tc (a # s)"
    then consider "is_sep a" "token_end tc s" | "token_after_sep tc s" by auto
    then show "\<exists>pre c post. a # s = pre @ c # tc @ post \<and> is_sep c \<and> (post = [] \<or> is_sep (hd post))"
    proof cases
      case 1
      then obtain post where "s = tc @ post" "post = [] \<or> is_sep (hd post)"
        by (auto simp: token_end_iff)
      with 1 have "a # s = [] @ a # tc @ post \<and> is_sep a \<and> (post = [] \<or> is_sep (hd post))"
        by simp
      then show ?thesis by blast
    next
      case 2
      with Cons.IH obtain pre c post where
        "s = pre @ c # tc @ post" "is_sep c" "post = [] \<or> is_sep (hd post)" by blast
      then have "a # s = (a # pre) @ c # tc @ post \<and> is_sep c \<and> (post = [] \<or> is_sep (hd post))"
        by simp
      then show ?thesis by blast
    qed
  next
    assume "\<exists>pre c post. a # s = pre @ c # tc @ post \<and> is_sep c \<and> (post = [] \<or> is_sep (hd post))"
    then obtain pre c post where
      e: "a # s = pre @ c # tc @ post" and c: "is_sep c" and p: "post = [] \<or> is_sep (hd post)"
      by blast
    show "token_after_sep tc (a # s)"
    proof (cases pre)
      case Nil
      with e have "a = c" "s = tc @ post" by simp_all
      with c p have "is_sep a \<and> token_end tc s" by (auto simp: token_end_iff)
      then show ?thesis by simp
    next
      case (Cons b pre')
      with e have "s = pre' @ c # tc @ post" by simp
      with c p Cons.IH have "token_after_sep tc s" by blast
      then show ?thesis by simp
    qed
  qed
qed

lemma token_match_iff:
  "token_match tc s \<longleftrightarrow>
     (\<exists>pre post. s = pre @ tc @ post \<and> (pre = [] \<or> is_sep (last pre)) \<and>
                 (post = [] \<or> is_sep (hd post)))"
proof
  assume "token_match tc s"
  then consider "token_end tc s" | "token_after_sep tc s" by (auto simp: token_match_def)
  then show "\<exists>pre post. s = pre @ tc @ post \<and> (pre = [] \<or> is_sep (last pre)) \<and>
                 (post = [] \<or> is_sep (hd post))"
  proof cases
    case 1
    then obtain post where "s = [] @ tc @ post" "post = [] \<or> is_sep (hd post)"
      by (auto simp: token_end_iff)
    then show ?thesis by blast
  next
    case 2
    then obtain pre c post where
      "s = pre @ c # tc @ post" "is_sep c" "post = [] \<or> is_sep (hd post)"
      by (auto simp: token_after_sep_iff)
    then have "s = (pre @ [c]) @ tc @ post \<and> (pre @ [c] = [] \<or> is_sep (last (pre @ [c]))) \<and>
        (post = [] \<or> is_sep (hd post))" by simp
    then show ?thesis by blast
  qed
next
  assume "\<exists>pre post. s = pre @ tc @ post \<and> (pre = [] \<or> is_sep (last pre)) \<and>
                 (post = [] \<or> is_sep (hd post))"
  then obtain pre post where
    e: "s = pre @ tc @ post" and l: "pre = [] \<or> is_sep (last pre)"
    and p: "post = [] \<or> is_sep (hd post)" by blast
  show "token_match tc s"
  proof (cases "pre = []")
    case True
    with e p have "token_end tc s" by (auto simp: token_end_iff)
    then show ?thesis by (simp add: token_match_def)
  next
    case False
    then have "pre = butlast pre @ [last pre]" by simp
    with e have "s = butlast pre @ last pre # tc @ post" by (metis append.assoc append_Cons append_Nil)
    moreover from False l have "is_sep (last pre)" by simp
    ultimately have "token_after_sep tc s" using p token_after_sep_iff by blast
    then show ?thesis by (simp add: token_match_def)
  qed
qed

lemma TEST_COMMANDS_lower: "map toLowerCase TEST_COMMANDS = TEST_COMMANDS"
  by code_simp

lemma TEST_COMMANDS_nonempty: "[] \<notin> set TEST_COMMANDS"
  by (simp add: TEST_COMMANDS_def)

lemma isTestCommand_iff:
  "isTestCommand (Some cmd) \<longleftrightarrow> (\<exists>tc\<in>set TEST_COMMANDS. token_match tc (toLowerCase cmd))"
proof -
  have low: "toLowerCase tc = tc" if "tc \<in> set TEST_COMMANDS" for tc
    using that TEST_COMMANDS_lower by (metis map_eq_conv map_idI list.map_id)
  have ne: "cmd \<noteq> []" if "tc \<in> set TEST_COMMANDS" "token_match tc (toLowerCase cmd)" for tc
  proof
    assume "cmd = []"
    with that(2) have "tc = []" by (auto simp: token_match_iff toLowerCase_def)
    with that(1) TEST_COMMANDS_nonempty show False by simp
  qed
  show ?thesis
    using low ne by (auto simp: isTestCommand_def list_ex_iff)
qed

text \<open>
  C8.  A command is a test command exactly when its lower-case form holds a runner name
  as a whole token: with the start of the string or a separator (white space, \<^verbatim>\<open>|\<close>,
  \<^verbatim>\<open>;\<close>, \<^verbatim>\<open>&\<close>) before it and a separator or the end of the string behind it.  For any
  other command, and for a missing one, the aggregator returns null.
\<close>

theorem isTestCommand_whole_token:
  "(isTestCommand (Some cmd) \<longleftrightarrow>
      (\<exists>tc\<in>set TEST_COMMANDS. \<exists>pre post.
          toLowerCase cmd = pre @ tc @ post \<and>
          (pre = [] \<or> is_sep (last pre)) \<and> (post = [] \<or> is_sep (hd post)))) \<and>
   (\<not> isTestCommand command \<longrightarrow> aggregateTestOutput output command = None)"
  by (simp add: isTestCommand_iff token_match_iff aggregateTestOutput_def)

theorem isTestCommand_whole_token_witness:
  "\<not> isTestCommand (Some ''pip install latest'') \<and>
   aggregateTestOutput ''1 passed'' (Some ''pip install latest'') = None \<and>
   \<not> (\<exists>tc\<in>set TEST_COMMANDS. \<exists>pre post.
          toLowerCase ''pip install latest'' = pre @ tc @ post \<and>
          (pre = [] \<or> is_sep (last pre)) \<and> (post = [] \<or> is_sep (hd post))) \<and>
   isTestCommand (Some ''cd app && npm TEST'')"
proof -
  have a: "\<not> isTestCommand (Some ''pip install latest'')"
    by code_simp
  have b: "isTestCommand (Some ''cd app && npm TEST'')"
    by code_simp
  show ?thesis
    using isTestCommand_whole_token [of "''pip install latest''" "Some ''pip install latest''" "''1 passed''"]
      a b
    by simp
qed


section \<open>Error blocks and failure blocks are flushed exactly once\<close>

lemma split_on_no_sep: "c \<notin> set x \<Longrightarrow> split_on c x = [x]"
  by (induction x) auto

lemma split_on_append_sep: "c \<notin> set x \<Longrightarrow> split_on c (x @ c # r) = x # split_on c r"
  by (induction x) auto

lemma split_on_parts: "l \<in> set (split_on c s) \<Longrightarrow> c \<notin> set l"
proof (induction s arbitrary: l)
  case Nil
  then show ?case by simp
next
  case (Cons a s)
  show ?case
  proof (cases "a = c")
    case True
    with Cons show ?thesis by auto
  next
    case False
    obtain y ys where sp: "split_on c s = y # ys"
      using split_on_nonempty [of c s] by (cases "split_on c s") auto
    with False Cons.prems have "l = a # y \<or> l \<in> set ys" by simp
    moreover have "c \<notin> set y" using Cons.IH [of y] sp by simp
    moreover have "l \<in> set ys \<Longrightarrow> c \<notin> set l" using Cons.IH [of l] sp by simp
    ultimately show ?thesis using False by auto
  qed
qed











section \<open>Search grouper: the lines it parses\<close>

lemma takeWhile_run:
  assumes "list_all P d" and "\<not> P x"
  shows "takeWhile P (d @ x # c) = d" and "dropWhile P (d @ x # c) = x # c"
  using assms by (induction d) simp_all

lemma match_tail_iff:
  "match_tail cs \<noteq> None \<longleftrightarrow>
     (\<exists>d t. cs = d @ CHR '':'' # t \<and> list_all is_digit d \<and> t \<noteq> [] \<and> list_all is_dot t)"
proof
  assume m: "match_tail cs \<noteq> None"
  then obtain x rest where dw: "dropWhile is_digit cs = x # rest"
    by (cases "dropWhile is_digit cs") (simp_all add: match_tail_def)
  with m have x: "x = CHR '':''" and r: "rest \<noteq> []" "list_all is_dot rest"
    by (simp_all add: match_tail_def split: if_splits)
  have "cs = takeWhile is_digit cs @ dropWhile is_digit cs" by simp
  with dw x have "cs = takeWhile is_digit cs @ CHR '':'' # rest" by simp
  moreover have "list_all is_digit (takeWhile is_digit cs)"
    by (simp add: list_all_iff) (meson set_takeWhileD)
  ultimately show "\<exists>d t. cs = d @ CHR '':'' # t \<and> list_all is_digit d \<and> t \<noteq> [] \<and> list_all is_dot t"
    using r by blast
next
  assume "\<exists>d t. cs = d @ CHR '':'' # t \<and> list_all is_digit d \<and> t \<noteq> [] \<and> list_all is_dot t"
  then obtain d t where cs: "cs = d @ CHR '':'' # t" and d: "list_all is_digit d"
    and t: "t \<noteq> []" "list_all is_dot t" by blast
  have nd: "\<not> is_digit CHR '':''" by (simp add: is_digit_def)
  from takeWhile_run(2) [OF d nd] cs have "dropWhile is_digit cs = CHR '':'' # t" by simp
  with t show "match_tail cs \<noteq> None" by (simp add: match_tail_def)
qed

lemma match_from_iff:
  "match_from f cs \<noteq> None \<longleftrightarrow>
     (\<exists>g rest. cs = g @ CHR '':'' # rest \<and> f @ g \<noteq> [] \<and> list_all is_dot g \<and>
                match_tail rest \<noteq> None)"
proof (induction cs arbitrary: f)
  case Nil
  show ?case by simp
next
  case (Cons c cs)
  have colon: "is_dot CHR '':''" by (simp add: is_dot_def nl_def)
  show ?case
  proof (cases "f \<noteq> [] \<and> c = CHR '':'' \<and> match_tail cs \<noteq> None")
    case True
    then have "match_from f (c # cs) \<noteq> None" by auto
    moreover from True have "c # cs = [] @ CHR '':'' # cs \<and> f @ [] \<noteq> [] \<and> list_all is_dot [] \<and>
        match_tail cs \<noteq> None" by simp
    ultimately show ?thesis by blast
  next
    case False
    then have step: "match_from f (c # cs) = (if is_dot c then match_from (f @ [c]) cs else None)"
      by (auto split: option.splits)
    show ?thesis
    proof
      assume "match_from f (c # cs) \<noteq> None"
      with step have dc: "is_dot c" and "match_from (f @ [c]) cs \<noteq> None"
        by (simp_all split: if_splits)
      with Cons.IH [of "f @ [c]"] obtain g rest where
        "cs = g @ CHR '':'' # rest" "list_all is_dot g" "match_tail rest \<noteq> None" by blast
      with dc have "c # cs = (c # g) @ CHR '':'' # rest \<and> f @ (c # g) \<noteq> [] \<and>
          list_all is_dot (c # g) \<and> match_tail rest \<noteq> None" by simp
      then show "\<exists>g rest. c # cs = g @ CHR '':'' # rest \<and> f @ g \<noteq> [] \<and> list_all is_dot g \<and>
          match_tail rest \<noteq> None" by blast
    next
      assume "\<exists>g rest. c # cs = g @ CHR '':'' # rest \<and> f @ g \<noteq> [] \<and> list_all is_dot g \<and>
          match_tail rest \<noteq> None"
      then obtain g rest where e: "c # cs = g @ CHR '':'' # rest" and ne: "f @ g \<noteq> []"
        and dg: "list_all is_dot g" and mt: "match_tail rest \<noteq> None" by blast
      show "match_from f (c # cs) \<noteq> None"
      proof (cases g)
        case Nil
        with e ne mt False show ?thesis by simp
      next
        case (Cons a g')
        with e dg have "a = c" "cs = g' @ CHR '':'' # rest" "is_dot c" "list_all is_dot g'"
          by simp_all
        with mt Cons.IH [of "f @ [c]"] have "match_from (f @ [c]) cs \<noteq> None" by auto
        with \<open>is_dot c\<close> step show ?thesis by simp
      qed
    qed
  qed
qed

lemma trim_empty_all_space:
  assumes "trim s = []"
  shows "list_all is_space s"
proof -
  from assms have all: "\<forall>x\<in>set (dropWhile is_space s). is_space x"
    by (simp add: trim_def)
  have "dropWhile is_space s = []"
  proof (rule ccontr)
    assume ne: "dropWhile is_space s \<noteq> []"
    then have "\<not> is_space (hd (dropWhile is_space s))" by (simp add: hd_dropWhile)
    moreover from ne have "hd (dropWhile is_space s) \<in> set (dropWhile is_space s)" by simp
    ultimately show False using all by blast
  qed
  then show ?thesis by (simp add: list_all_iff)
qed

lemma parse_search_line_iff:
  "parse_search_line l \<noteq> None \<longleftrightarrow>
     (\<exists>f d t. l = f @ CHR '':'' # d @ CHR '':'' # t \<and> f \<noteq> [] \<and> list_all is_dot f \<and>
              list_all is_digit d \<and> t \<noteq> [] \<and> list_all is_dot t)"
proof
  assume "parse_search_line l \<noteq> None"
  then have "match_from [] l \<noteq> None" by (simp add: parse_search_line_def split: if_splits)
  then have "\<exists>g rest. l = g @ CHR '':'' # rest \<and> [] @ g \<noteq> [] \<and> list_all is_dot g \<and>
      match_tail rest \<noteq> None"
    unfolding match_from_iff .
  then obtain g rest where g: "l = g @ CHR '':'' # rest" "g \<noteq> []" "list_all is_dot g"
    and mt: "match_tail rest \<noteq> None" by auto
  from mt have "\<exists>d t. rest = d @ CHR '':'' # t \<and> list_all is_digit d \<and> t \<noteq> [] \<and> list_all is_dot t"
    unfolding match_tail_iff .
  then obtain d t where "rest = d @ CHR '':'' # t" "list_all is_digit d" "t \<noteq> []"
    "list_all is_dot t" by blast
  with g show "\<exists>f d t. l = f @ CHR '':'' # d @ CHR '':'' # t \<and> f \<noteq> [] \<and> list_all is_dot f \<and>
              list_all is_digit d \<and> t \<noteq> [] \<and> list_all is_dot t" by blast
next
  assume "\<exists>f d t. l = f @ CHR '':'' # d @ CHR '':'' # t \<and> f \<noteq> [] \<and> list_all is_dot f \<and>
              list_all is_digit d \<and> t \<noteq> [] \<and> list_all is_dot t"
  then obtain f d t where l: "l = f @ CHR '':'' # d @ CHR '':'' # t" and f: "f \<noteq> []" "list_all is_dot f"
    and d: "list_all is_digit d" and t: "t \<noteq> []" "list_all is_dot t" by blast
  from d t have "match_tail (d @ CHR '':'' # t) \<noteq> None" using match_tail_iff by blast
  with l f have m: "match_from [] l \<noteq> None" using match_from_iff [of "[]" l] by auto
  have "\<not> is_space CHR '':''" by (simp add: is_space_def)
  with l have "\<not> list_all is_space l" by (auto simp: list_all_iff)
  then have "trim l \<noteq> []" using trim_empty_all_space by blast
  with m show "parse_search_line l \<noteq> None" by (simp add: parse_search_line_def)
qed

lemma map_filter_empty_iff: "List.map_filter g xs = [] \<longleftrightarrow> (\<forall>x\<in>set xs. g x = None)"
  by (induction xs) (auto split: option.splits)

lemma groupSearchResults_None_iff:
  "groupSearchResults cmp output maxResults = None \<longleftrightarrow>
     (\<forall>l\<in>set (split_on nl output). parse_search_line l = None)"
  by (auto simp: groupSearchResults_def Let_def map_filter_empty_iff split: prod.splits)

text \<open>
  The grouper returns null exactly when no line of the input is a match of the pattern:
  a non-empty file part, a colon, digits or nothing, a second colon, a non-empty content,
  with no carriage return in the file part or the content.
\<close>

lemma groupSearchResults_None_pattern:
  "groupSearchResults cmp output maxResults = None \<longleftrightarrow>
     (\<forall>l\<in>set (split_on nl output).
        \<not> (\<exists>f d t. l = f @ CHR '':'' # d @ CHR '':'' # t \<and> f \<noteq> [] \<and> list_all is_dot f \<and>
                    list_all is_digit d \<and> t \<noteq> [] \<and> list_all is_dot t))"
proof -
  have "parse_search_line l = None \<longleftrightarrow>
      \<not> (\<exists>f d t. l = f @ CHR '':'' # d @ CHR '':'' # t \<and> f \<noteq> [] \<and> list_all is_dot f \<and>
                    list_all is_digit d \<and> t \<noteq> [] \<and> list_all is_dot t)" for l
    using parse_search_line_iff [of l] by blast
  then show ?thesis
    by (simp add: groupSearchResults_None_iff)
qed

lemma groupSearchResults_one_line:
  assumes "nl \<notin> set l"
  shows "groupSearchResults cmp l maxResults = None \<longleftrightarrow> parse_search_line l = None"
  using assms by (simp add: groupSearchResults_None_iff split_on_no_sep)

text \<open>
  C10.  The grouper is to return null exactly when no line has the shape
  \<^verbatim>\<open>file:line?:content\<close> with an optional line number; the comment at the pattern names
  \<^verbatim>\<open>file:line:content\<close> and \<^verbatim>\<open>file:content\<close>.  On the line
  \<^verbatim>\<open>src/app.ts:const x = 1\<close>, which has a file and a content and no line number, the
  program returns null, because its pattern asks for the second colon also when the line
  number is absent.  It returns null as well on the line \<^verbatim>\<open>a:1:b\<close> that ends with a
  carriage return, because the pattern's \<^verbatim>\<open>.\<close> does not match a carriage return.
\<close>

theorem groupSearchResults_file_content_null:
  "groupSearchResults cmp ''src/app.ts:const x = 1'' maxResults = None \<and>
   groupSearchResults cmp (''a:1:b'' @ [CHR 0x0D]) maxResults = None \<and>
   groupSearchResults cmp ''src/app.ts::const x = 1'' maxResults \<noteq> None"
proof -
  have 1: "parse_search_line ''src/app.ts:const x = 1'' = None"
    by code_simp
  have 2: "parse_search_line (''a:1:b'' @ [CHR 0x0D]) = None"
    by code_simp
  have 3: "parse_search_line ''src/app.ts::const x = 1'' \<noteq> None"
    by code_simp
  have n: "nl \<notin> set ''src/app.ts:const x = 1''" "nl \<notin> set (''a:1:b'' @ [CHR 0x0D])"
    "nl \<notin> set ''src/app.ts::const x = 1''"
    by (simp_all add: nl_def)
  have a: "groupSearchResults cmp ''src/app.ts:const x = 1'' maxResults = None"
    by (rule iffD2 [OF groupSearchResults_one_line [OF n(1)] 1])
  have b: "groupSearchResults cmp (''a:1:b'' @ [CHR 0x0D]) maxResults = None"
    by (rule iffD2 [OF groupSearchResults_one_line [OF n(2)] 2])
  have c: "groupSearchResults cmp ''src/app.ts::const x = 1'' maxResults \<noteq> None"
    unfolding groupSearchResults_one_line [OF n(3)] by (rule 3)
  show ?thesis
    by (intro conjI a b c)
qed


section \<open>Minimal filter: runs of line feeds and trimming\<close>

lemma last_dropWhile: "dropWhile P xs \<noteq> [] \<Longrightarrow> last (dropWhile P xs) = last xs"
  by (metis last_appendR takeWhile_dropWhile_id)

lemma trim_ends:
  "trim s = [] \<or> (\<not> is_space (hd (trim s)) \<and> \<not> is_space (last (trim s)))"
proof (cases "trim s = []")
  case True
  then show ?thesis by simp
next
  case False
  let ?u = "dropWhile is_space s"
  let ?v = "dropWhile is_space (rev ?u)"
  from False have v: "?v \<noteq> []" by (simp add: trim_def)
  have u: "?u \<noteq> []"
  proof
    assume e: "?u = []"
    have "?v = []" unfolding e by simp
    with v show False by (rule notE)
  qed
  have "last (trim s) = hd ?v" using v by (simp add: trim_def last_rev)
  moreover have "\<not> is_space (hd ?v)" using v by (simp add: hd_dropWhile)
  moreover have "hd (trim s) = last ?v" using v by (simp add: trim_def hd_rev)
  moreover have "last ?v = last (rev ?u)" using v by (rule last_dropWhile)
  moreover have "last (rev ?u) = hd ?u" using u by (simp add: last_rev)
  moreover have "\<not> is_space (hd ?u)" using u by (simp add: hd_dropWhile)
  ultimately show ?thesis by simp
qed

lemma nl_run_not_nl: "c \<noteq> nl \<Longrightarrow> nl_run (c # cs) = None"
  by (simp add: nl_run_def)

lemma nl_run_append:
  assumes "xs \<noteq> []" and "last xs \<noteq> nl"
  shows "takeWhile (\<lambda>c. c = nl) (xs @ zs) = takeWhile (\<lambda>c. c = nl) xs"
proof -
  from assms have "last xs \<in> set xs \<and> \<not> (last xs = nl)" by simp
  then show ?thesis by (metis (mono_tags, lifting) takeWhile_append1)
qed

lemma takeWhile_length_le: "length (takeWhile P xs) \<le> length xs"
  by (induction xs) auto

lemma collapse_append:
  assumes "xs = [] \<or> last xs \<noteq> nl"
  shows "replace_all nl_run [nl, nl] (xs @ zs) =
           replace_all nl_run [nl, nl] xs @ replace_all nl_run [nl, nl] zs"
  using assms
proof (induction "length xs" arbitrary: xs rule: less_induct)
  case less
  show ?case
  proof (cases xs)
    case Nil
    then show ?thesis by simp
  next
    case (Cons c cs)
    with less.prems have lx: "last xs \<noteq> nl" and ne: "xs \<noteq> []" by simp_all
    have tw: "takeWhile (\<lambda>c. c = nl) (xs @ zs) = takeWhile (\<lambda>c. c = nl) xs"
      using ne lx by (rule nl_run_append)
    then have run: "nl_run (xs @ zs) = nl_run xs" by (simp add: nl_run_def)
    show ?thesis
    proof (cases "nl_run xs")
      case None
      have cs: "cs = [] \<or> last cs \<noteq> nl" using lx Cons by (cases cs) auto
      have "replace_all nl_run [nl, nl] (cs @ zs) =
          replace_all nl_run [nl, nl] cs @ replace_all nl_run [nl, nl] zs"
        using cs Cons by (intro less.hyps) simp_all
      with None run Cons show ?thesis by simp
    next
      case (Some k)
      then have k: "k = length (takeWhile (\<lambda>c. c = nl) xs)" "3 \<le> k"
        by (simp_all add: nl_run_def split: if_splits)
      let ?r = "drop (k - 1) cs"
      have kl: "k \<le> length xs" using k(1) by (simp add: takeWhile_length_le)
      have dr: "drop k xs = ?r" using Cons k(2) by (cases k) simp_all
      have "xs = takeWhile (\<lambda>c. c = nl) xs @ dropWhile (\<lambda>c. c = nl) xs" by simp
      then have dd: "drop k xs = dropWhile (\<lambda>c. c = nl) xs"
        using k(1) by (metis append_eq_conv_conj)
      have dne: "dropWhile (\<lambda>c. c = nl) xs \<noteq> []"
        using ne lx by (metis (mono_tags, lifting) dropWhile_eq_Nil_conv last_in_set)
      have rl: "?r = [] \<or> last ?r \<noteq> nl"
        using dne dd dr lx last_dropWhile [of "\<lambda>c. c = nl" xs] by simp
      have "length ?r < length xs" using Cons by simp
      then have ih: "replace_all nl_run [nl, nl] (?r @ zs) =
          replace_all nl_run [nl, nl] ?r @ replace_all nl_run [nl, nl] zs"
        using rl by (intro less.hyps)
      have "k - 1 \<le> length cs" using kl Cons by simp
      then have "drop (k - 1) (cs @ zs) = ?r @ zs" by simp
      with Some run Cons k(2) ih show ?thesis by simp
    qed
  qed
qed

lemma collapse_run:
  assumes "ys = [] \<or> hd ys \<noteq> nl" and "3 \<le> n"
  shows "replace_all nl_run [nl, nl] (replicate n nl @ ys) = [nl, nl] @ replace_all nl_run [nl, nl] ys"
proof -
  obtain m where n: "n = Suc m" using assms(2) by (cases n) simp_all
  have rp: "list_all (\<lambda>c. c = nl) (replicate n nl)" by (simp add: list_all_iff)
  have tw: "takeWhile (\<lambda>c. c = nl) (replicate n nl @ ys) = replicate n nl"
  proof (cases ys)
    case Nil
    then show ?thesis by (simp add: takeWhile_eq_all_conv)
  next
    case (Cons a list)
    with assms(1) have "a \<noteq> nl" by simp
    with rp Cons show ?thesis by (simp add: takeWhile_run(1))
  qed
  then have "nl_run (nl # replicate m nl @ ys) = Some n"
    using assms(2) n by (simp add: nl_run_def)
  then show ?thesis using n by simp
qed

lemma collapse_runs:
  assumes "xs = [] \<or> last xs \<noteq> nl" and "ys = [] \<or> hd ys \<noteq> nl" and "3 \<le> n"
  shows "replace_all nl_run [nl, nl] (xs @ replicate n nl @ ys) =
           replace_all nl_run [nl, nl] xs @ [nl, nl] @ replace_all nl_run [nl, nl] ys"
  using collapse_append [OF assms(1)] collapse_run [OF assms(2,3)] by simp

text \<open>
  C5.  After the minimal pass (for a known language) every maximal run of three or more
  line feeds of the intermediate text is replaced by exactly two line feeds, which leave
  one empty line between the neighbours, and the final result neither begins nor ends
  with white space.
\<close>

theorem filterMinimal_blank_runs:
  assumes "language \<noteq> Unknown"
  shows "(\<forall>xs n ys. minimal_pass code language = xs @ replicate n nl @ ys \<and> 3 \<le> n \<and>
            (xs = [] \<or> last xs \<noteq> nl) \<and> (ys = [] \<or> hd ys \<noteq> nl) \<longrightarrow>
            filterMinimal code language =
              trim (replace_all nl_run [nl, nl] xs @ [nl, nl] @ replace_all nl_run [nl, nl] ys)) \<and>
         (filterMinimal code language = [] \<or>
            (\<not> is_space (hd (filterMinimal code language)) \<and>
             \<not> is_space (last (filterMinimal code language))))"
  using assms collapse_runs trim_ends by (simp add: filterMinimal_def)

theorem filterMinimal_blank_runs_witness:
  "Typescript \<noteq> Unknown \<and>
   minimal_pass (''a'' @ [nl, nl, nl, nl] @ ''b'') Typescript = ''a'' @ replicate 4 nl @ ''b'' \<and>
   filterMinimal (''a'' @ [nl, nl, nl, nl] @ ''b'') Typescript = ''a'' @ [nl, nl] @ ''b''"
proof -
  have l: "Typescript \<noteq> Unknown" by simp
  have m: "minimal_pass (''a'' @ [nl, nl, nl, nl] @ ''b'') Typescript = ''a'' @ replicate 4 nl @ ''b''"
    by code_simp
  have c: "replace_all nl_run [nl, nl] ''a'' = ''a''" "replace_all nl_run [nl, nl] ''b'' = ''b''"
    by code_simp+
  have t: "trim (''a'' @ [nl, nl] @ ''b'') = ''a'' @ [nl, nl] @ ''b''"
    by code_simp
  have b: "(''a'' = [] \<or> last ''a'' \<noteq> nl) \<and> (''b'' = [] \<or> hd ''b'' \<noteq> nl)"
    by (simp add: nl_def)
  have n: "3 \<le> (4::nat)" by simp
  note th = filterMinimal_blank_runs [OF l, of "''a'' @ [nl, nl, nl, nl] @ ''b''"]
  from th have "\<forall>xs n ys. minimal_pass (''a'' @ [nl, nl, nl, nl] @ ''b'') Typescript = xs @ replicate n nl @ ys \<and>
      3 \<le> n \<and> (xs = [] \<or> last xs \<noteq> nl) \<and> (ys = [] \<or> hd ys \<noteq> nl) \<longrightarrow>
      filterMinimal (''a'' @ [nl, nl, nl, nl] @ ''b'') Typescript =
        trim (replace_all nl_run [nl, nl] xs @ [nl, nl] @ replace_all nl_run [nl, nl] ys)"
    by (rule conjunct1)
  from this [rule_format, of "''a''" 4 "''b''", OF conjI [OF m conjI [OF n b]]]
  have "filterMinimal (''a'' @ [nl, nl, nl, nl] @ ''b'') Typescript =
      trim (replace_all nl_run [nl, nl] ''a'' @ [nl, nl] @ replace_all nl_run [nl, nl] ''b'')" .
  then have f: "filterMinimal (''a'' @ [nl, nl, nl, nl] @ ''b'') Typescript = ''a'' @ [nl, nl] @ ''b''"
    unfolding c t .
  show ?thesis
    by (intro conjI l m f)
qed

text \<open>
  Three blank lines between two lines (four line feeds) come out as one blank line, not
  two.
\<close>

theorem filterMinimal_blank_runs_counterexample:
  "split_on nl (filterMinimal (''a'' @ [nl, nl, nl, nl] @ ''b'') Typescript) = [''a'', [], ''b'']"
  by code_simp


section \<open>Aggressive filter: a function whose braces stand on lines of their own\<close>

lemma split_on_join:
  assumes "ls \<noteq> []" and "\<forall>l\<in>set ls. c \<notin> set l"
  shows "split_on c (join_with [c] ls) = ls"
  using assms
proof (induction ls)
  case Nil
  then show ?case by simp
next
  case (Cons x xs)
  then have x: "c \<notin> set x" by simp
  show ?case
  proof (cases xs)
    case Nil
    with x show ?thesis by (simp add: split_on_no_sep)
  next
    case (Cons y ys)
    with Cons.IH Cons.prems have "split_on c (join_with [c] xs) = xs" by simp
    with Cons x show ?thesis by (simp add: split_on_append_sep)
  qed
qed

lemma set_trim: "set (trim s) \<subseteq> set s"
proof -
  have "set (dropWhile is_space (rev (dropWhile is_space s))) \<subseteq> set (rev (dropWhile is_space s))"
    by (rule set_dropWhileD [THEN subsetI])
  also have "\<dots> \<subseteq> set s" by (auto dest: set_dropWhileD)
  finally show ?thesis by (simp add: trim_def)
qed

lemma trim_id:
  assumes "s \<noteq> []" and "\<not> is_space (hd s)" and "\<not> is_space (last s)"
  shows "trim s = s"
proof -
  from assms(1,2) have a: "dropWhile is_space s = s" by (cases s) simp_all
  from assms(1,3) have "dropWhile is_space (rev s) = rev s" by (cases "rev s") (simp_all add: hd_rev)
  with a show ?thesis by (simp add: trim_def)
qed

lemma brace_line_facts:
  "trim ''{'' = ''{''" "trim ''}'' = ''}''"
  "\<not> importPattern ''{''" "\<not> importPattern ''}''"
  "\<not> signaturePattern ''{''" "\<not> signaturePattern ''}''"
  by code_simp+

lemma aggressive_step_body:
  assumes "CHR ''{'' \<notin> set b" and "CHR ''}'' \<notin> set b"
    and "\<not> importPattern (trim b)" and "\<not> signaturePattern (trim b)"
  shows "aggressive_step \<lparr>resultA = r, braceDepth = 1, inImplementation = True\<rparr> b =
           \<lparr>resultA = r, braceDepth = 1, inImplementation = True\<rparr>"
proof -
  from assms(1,2) set_trim [of b] have o: "CHR ''{'' \<notin> set (trim b)" and c: "CHR ''}'' \<notin> set (trim b)"
    by auto
  then have cnt: "count_list (trim b) (CHR ''{'') = 0" "count_list (trim b) (CHR ''}'') = 0"
    by simp_all
  from o c have ne: "trim b \<noteq> ''{''" "trim b \<noteq> ''}''" by auto
  have "\<not> endsWith (trim b) ''{''"
  proof
    assume "endsWith (trim b) ''{''"
    then have "drop (length (trim b) - 1) (trim b) = ''{''" by (simp add: endsWith_def)
    then have "CHR ''{'' \<in> set (drop (length (trim b) - 1) (trim b))" by simp
    then have "CHR ''{'' \<in> set (trim b)" by (rule in_set_dropD)
    with o show False by simp
  qed
  with assms(3,4) cnt ne show ?thesis
    by (simp add: aggressive_step_def)
qed

lemma aggressive_fold_body:
  assumes "\<forall>b\<in>set body. CHR ''{'' \<notin> set b \<and> CHR ''}'' \<notin> set b \<and>
             \<not> importPattern (trim b) \<and> \<not> signaturePattern (trim b)"
  shows "foldl aggressive_step \<lparr>resultA = r, braceDepth = 1, inImplementation = True\<rparr> body =
           \<lparr>resultA = r, braceDepth = 1, inImplementation = True\<rparr>"
  using assms by (induction body) (simp_all add: aggressive_step_body)

lemma aggressive_function_lines:
  assumes "signaturePattern (trim sig)" and "\<not> importPattern (trim sig)"
    and "\<forall>b\<in>set body. CHR ''{'' \<notin> set b \<and> CHR ''}'' \<notin> set b \<and>
             \<not> importPattern (trim b) \<and> \<not> signaturePattern (trim b)"
  shows "resultA (foldl aggressive_step aggressive_init (sig # ''{'' # body @ [''}''])) =
           [sig, ''{'', ''}'']"
proof -
  have 1: "aggressive_step aggressive_init sig =
      \<lparr>resultA = [sig], braceDepth = 0, inImplementation = True\<rparr>"
    using assms(1,2) by (simp add: aggressive_step_def aggressive_init_def)
  have 2: "aggressive_step \<lparr>resultA = [sig], braceDepth = 0, inImplementation = True\<rparr> ''{'' =
      \<lparr>resultA = [sig, ''{''], braceDepth = 1, inImplementation = True\<rparr>"
    by (simp add: aggressive_step_def brace_line_facts)
  have 3: "aggressive_step \<lparr>resultA = [sig, ''{''], braceDepth = 1, inImplementation = True\<rparr> ''}'' =
      \<lparr>resultA = [sig, ''{'', ''}''], braceDepth = 0, inImplementation = False\<rparr>"
    by (simp add: aggressive_step_def brace_line_facts)
  show ?thesis
    by (simp add: 1 2 3 aggressive_fold_body [OF assms(3)])
qed

text \<open>
  C2.  Take a single function written as a signature line, a line holding only the
  opening brace, body statements without braces (none of them an import or a signature
  line), and a line holding only the closing brace, in a text that the minimal pass
  leaves as it is.  The aggressive filter keeps the signature line, the opening brace
  and the closing brace, and drops every statement of the body; it adds no placeholder
  line, because the line that brings the depth back to 0 is the lone closing brace.
\<close>

theorem filterAggressive_function:
  assumes "language \<noteq> Unknown"
    and "filterMinimal (join_with [nl] (sig # ''{'' # body @ [''}''])) language =
           join_with [nl] (sig # ''{'' # body @ [''}''])"
    and "signaturePattern (trim sig)" and "\<not> importPattern (trim sig)"
    and "\<not> is_space (hd sig)" and "nl \<notin> set sig"
    and "\<forall>b\<in>set body. CHR ''{'' \<notin> set b \<and> CHR ''}'' \<notin> set b \<and> nl \<notin> set b \<and>
             \<not> importPattern (trim b) \<and> \<not> signaturePattern (trim b)"
  shows "filterAggressive (join_with [nl] (sig # ''{'' # body @ [''}''])) language =
           join_with [nl] [sig, ''{'', ''}'']"
proof -
  let ?ls = "sig # ''{'' # body @ [''}'']"
  have nls: "\<forall>l\<in>set ?ls. nl \<notin> set l"
    using assms(6,7) by (auto simp: nl_def)
  have sp: "split_on nl (join_with [nl] ?ls) = ?ls"
    using nls by (intro split_on_join) simp_all
  have body: "\<forall>b\<in>set body. CHR ''{'' \<notin> set b \<and> CHR ''}'' \<notin> set b \<and>
             \<not> importPattern (trim b) \<and> \<not> signaturePattern (trim b)"
    using assms(7) by blast
  have res: "resultA (foldl aggressive_step aggressive_init ?ls) = [sig, ''{'', ''}'']"
    using assms(3,4) body by (rule aggressive_function_lines)
  have ne: "sig \<noteq> []"
  proof
    assume "sig = []"
    then have "trim sig = []" by (simp add: trim_def)
    moreover have "\<not> signaturePattern []" by code_simp
    ultimately show False using assms(3) by simp
  qed
  have j: "join_with [nl] [sig, ''{'', ''}''] = sig @ nl # ''{'' @ nl # ''}''" by simp
  have "trim (sig @ nl # ''{'' @ nl # ''}'') = sig @ nl # ''{'' @ nl # ''}''"
    using ne assms(5) by (intro trim_id) (simp_all add: is_space_def)
  with assms(1) show ?thesis
    unfolding filterAggressive_def assms(2) sp res j by simp
qed

theorem filterAggressive_function_witness:
  "Typescript \<noteq> Unknown \<and>
   filterMinimal (join_with [nl] (''function foo()'' # ''{'' # [''  a();'', ''  b();''] @ [''}'']))
     Typescript =
     join_with [nl] (''function foo()'' # ''{'' # [''  a();'', ''  b();''] @ [''}'']) \<and>
   signaturePattern (trim ''function foo()'') \<and> \<not> importPattern (trim ''function foo()'') \<and>
   filterAggressive (join_with [nl] (''function foo()'' # ''{'' # [''  a();'', ''  b();''] @ [''}'']))
     Typescript = join_with [nl] [''function foo()'', ''{'', ''}'']"
proof -
  have l: "Typescript \<noteq> Unknown" by simp
  have m: "filterMinimal (join_with [nl] (''function foo()'' # ''{'' # [''  a();'', ''  b();''] @ [''}'']))
     Typescript =
     join_with [nl] (''function foo()'' # ''{'' # [''  a();'', ''  b();''] @ [''}''])"
    by code_simp
  have s: "signaturePattern (trim ''function foo()'')" by code_simp
  have i: "\<not> importPattern (trim ''function foo()'')" by code_simp
  have h: "\<not> is_space (hd ''function foo()'')" by code_simp
  have n: "nl \<notin> set ''function foo()''" by (simp add: nl_def)
  have ba: "CHR ''{'' \<notin> set ''  a();'' \<and> CHR ''}'' \<notin> set ''  a();'' \<and> nl \<notin> set ''  a();'' \<and>
      \<not> importPattern (trim ''  a();'') \<and> \<not> signaturePattern (trim ''  a();'')"
    by code_simp
  have bb: "CHR ''{'' \<notin> set ''  b();'' \<and> CHR ''}'' \<notin> set ''  b();'' \<and> nl \<notin> set ''  b();'' \<and>
      \<not> importPattern (trim ''  b();'') \<and> \<not> signaturePattern (trim ''  b();'')"
    by code_simp
  have b: "\<forall>b\<in>set [''  a();'', ''  b();'']. CHR ''{'' \<notin> set b \<and> CHR ''}'' \<notin> set b \<and> nl \<notin> set b \<and>
             \<not> importPattern (trim b) \<and> \<not> signaturePattern (trim b)"
    using ba bb by (simp only: list.set ball_simps insert_iff empty_iff) blast
  have f: "filterAggressive (join_with [nl] (''function foo()'' # ''{'' # [''  a();'', ''  b();''] @ [''}'']))
     Typescript = join_with [nl] [''function foo()'', ''{'', ''}'']"
    using l m s i h n b by (rule filterAggressive_function)
  show ?thesis
    by (intro conjI l m s i f)
qed

text \<open>
  The function of the claim in both layouts.  With the braces on lines of their own
  there is no placeholder line; with the opening brace on the signature line the
  placeholder follows the signature line and the closing brace is dropped.
\<close>

theorem filterAggressive_function_counterexample:
  "split_on nl (filterAggressive
      (join_with [nl] [''function foo()'', ''{'', ''  a();'', ''  b();'', ''}'']) Typescript) =
     [''function foo()'', ''{'', ''}''] \<and>
   split_on nl (filterAggressive
      (join_with [nl] [''function foo() {'', ''  a();'', ''  b();'', ''}'']) Typescript) =
     [''function foo() {'', ''    // ... implementation'']"
  by code_simp


section \<open>Smart truncator: the number of lines of its output\<close>

lemma digit_char_no_nl: "d < 10 \<Longrightarrow> digit_char d \<noteq> nl"
proof -
  assume "d < 10"
  then have "digit_char d \<in> set ''0123456789''"
    unfolding digit_char_def by (intro nth_mem) simp
  then show ?thesis by (auto simp: nl_def)
qed

lemma show_nat_no_nl: "nl \<notin> set (show_nat n)"
proof (induction n rule: show_nat.induct)
  case (1 n)
  show ?case
  proof (cases "n < 10")
    case True
    then show ?thesis using digit_char_no_nl [of n] by (subst show_nat.simps) auto
  next
    case False
    with 1 have "nl \<notin> set (show_nat (n div 10))" by simp
    moreover have "digit_char (n mod 10) \<noteq> nl" by (rule digit_char_no_nl) simp
    ultimately show ?thesis using False by (subst show_nat.simps) auto
  qed
qed

lemma show_int_no_nl: "nl \<notin> set (show_int i)"
  using show_nat_no_nl by (auto simp: show_int_def nl_def)

lemma summary_line_no_nl: "nl \<notin> set (summary_line n k)"
  using show_nat_no_nl [of n] show_int_no_nl [of "int n - int k"]
  by (auto simp: summary_line_def nl_def)

lemma truncate_step_no_nl:
  assumes "\<forall>l\<in>set (resultT s). nl \<notin> set l" and "nl \<notin> set l"
  shows "\<forall>l\<in>set (resultT (truncate_step m n s l)). nl \<notin> set l"
  using assms show_int_no_nl [of "int n - int (length (resultT s)) - int (keptLines s)"]
  by (auto simp: truncate_step_def omitted_marker_def nl_def)

lemma truncate_loop_no_nl:
  assumes "\<forall>l\<in>set (resultT s). nl \<notin> set l" and "\<forall>l\<in>set ls. nl \<notin> set l"
  shows "\<forall>l\<in>set (resultT (truncate_loop m n ls s)). nl \<notin> set l"
  using assms
proof (induction ls arbitrary: s)
  case Nil
  then show ?case by simp
next
  case (Cons l ls)
  then have st: "\<forall>x\<in>set (resultT (truncate_step m n s l)). nl \<notin> set x"
    by (intro truncate_step_no_nl) simp_all
  show ?case
  proof (cases "m - 1 \<le> int (keptLines (truncate_step m n s l))")
    case True
    with st show ?thesis by simp
  next
    case False
    with Cons.IH [OF st] Cons.prems(2) show ?thesis by simp
  qed
qed

lemma truncate_loop_first_half:
  assumes "k + length pre \<le> 100"
  shows "truncate_loop 200 n (pre @ rest) \<lparr>resultT = res, keptLines = k, skippedSection = False\<rparr> =
         truncate_loop 200 n rest
           \<lparr>resultT = res @ pre, keptLines = k + length pre, skippedSection = False\<rparr>"
  using assms
proof (induction pre arbitrary: res k)
  case Nil
  show ?case by simp
next
  case (Cons l pre)
  then have k: "k < 100" by simp
  then have st: "truncate_step 200 n \<lparr>resultT = res, keptLines = k, skippedSection = False\<rparr> l =
      \<lparr>resultT = res @ [l], keptLines = Suc k, skippedSection = False\<rparr>"
    by (simp add: truncate_step_def)
  from Cons.prems have "Suc k + length pre \<le> 100" by simp
  from Cons.IH [OF this, of "res @ [l]"] k show ?case
    by (simp add: st)
qed

lemma truncate_step_keep:
  assumes "important l"
  shows "keptLines (truncate_step 200 n s l) = Suc (keptLines s)"
    and "length (resultT (truncate_step 200 n s l)) =
           length (resultT s) + (if skippedSection s then 1 else 0) + 1"
    and "\<not> skippedSection (truncate_step 200 n s l)"
  using assms by (simp_all add: truncate_step_def important_def)

lemma truncate_step_drop:
  assumes "\<not> important l" and "100 \<le> keptLines s"
  shows "truncate_step 200 n s l = s\<lparr>skippedSection := True\<rparr>"
  using assms by (simp add: truncate_step_def important_def)

lemma truncate_loop_second_half:
  assumes "100 \<le> keptLines s" and "keptLines s < 199"
  shows "keptLines (truncate_loop 200 n ls s) =
           keptLines s + length (filter important (take_kept (199 - keptLines s) important ls)) \<and>
         length (resultT (truncate_loop 200 n ls s)) =
           length (resultT s) + length (filter important (take_kept (199 - keptLines s) important ls))
           + closed_drop_runs
               ((\<not> skippedSection s) # map important (take_kept (199 - keptLines s) important ls))"
  using assms
proof (induction ls arbitrary: s)
  case Nil
  obtain m where m: "199 - keptLines s = Suc m"
    using Nil.prems(2) by (cases "199 - keptLines s") simp_all
  show ?case by (simp add: m)
next
  case (Cons l ls)
  obtain m where m: "199 - keptLines s = Suc m"
    using Cons.prems(2) by (cases "199 - keptLines s") simp_all
  show ?case
  proof (cases "important l")
    case True
    let ?s = "truncate_step 200 n s l"
    note st = truncate_step_keep [OF True, of n s]
    show ?thesis
    proof (cases "keptLines s = 198")
      case True
      then have "m = 0" using m by simp
      with True \<open>important l\<close> st m show ?thesis by simp
    next
      case False
      with Cons.prems st(1) have a: "100 \<le> keptLines ?s" and b: "keptLines ?s < 199" by simp_all
      have c: "199 - keptLines ?s = m" using m st(1) by simp
      from Cons.IH [OF a b] c st False Cons.prems \<open>important l\<close> m show ?thesis
        by simp
    qed
  next
    case False
    let ?s = "s\<lparr>skippedSection := True\<rparr>"
    have st: "truncate_step 200 n s l = ?s"
      using False Cons.prems(1) by (rule truncate_step_drop)
    have a: "100 \<le> keptLines ?s" and b: "keptLines ?s < 199" using Cons.prems by simp_all
    from Cons.IH [OF a b] st False Cons.prems m show ?thesis
      by simp
  qed
qed

lemma closed_drop_runs_le: "closed_drop_runs (a # map P xs) \<le> length (filter P xs)"
proof (induction xs arbitrary: a)
  case Nil
  show ?case by simp
next
  case (Cons x xs)
  show ?case using Cons [of True] Cons [of False] by simp
qed

lemma take_kept_budget: "length (filter P (take_kept n P xs)) \<le> n"
proof (induction xs arbitrary: n)
  case Nil
  show ?case by (cases n) simp_all
next
  case (Cons x xs)
  show ?case
  proof (cases n)
    case 0
    then show ?thesis by simp
  next
    case (Suc m)
    with Cons [of m] Cons [of "Suc m"] show ?thesis by simp
  qed
qed

lemma emitted_as_kept: "list_all2 emitted_as xs (map Some xs)"
  by (induction xs) (simp_all add: emitted_as_def)

lemma truncate_step_keep_lines:
  assumes "important l"
  shows "\<exists>pre. resultT (truncate_step 200 n s l) = resultT s @ pre \<and>
           list_all2 emitted_as pre ((if skippedSection s then [None] else []) @ [Some l])"
proof (cases "skippedSection s")
  case True
  let ?m = "omitted_marker (int n - int (length (resultT s)) - int (keptLines s))"
  have "resultT (truncate_step 200 n s l) = resultT s @ [?m, l]"
    using assms True by (simp add: truncate_step_def important_def)
  moreover have "list_all2 emitted_as [?m, l] ([None] @ [Some l])"
    by (auto simp: emitted_as_def)
  ultimately show ?thesis using True by auto
next
  case False
  have "resultT (truncate_step 200 n s l) = resultT s @ [l]"
    using assms False by (simp add: truncate_step_def important_def)
  moreover have "list_all2 emitted_as [l] ([] @ [Some l])"
    by (simp add: emitted_as_def)
  ultimately show ?thesis using False by auto
qed

lemma truncate_loop_second_half_lines:
  assumes "100 \<le> keptLines s" and "keptLines s < 199"
  shows "\<exists>new. resultT (truncate_loop 200 n ls s) = resultT s @ new \<and>
           list_all2 emitted_as new
             (marked_lines (skippedSection s) (take_kept (199 - keptLines s) important ls))"
  using assms
proof (induction ls arbitrary: s)
  case Nil
  obtain m where m: "199 - keptLines s = Suc m"
    using Nil.prems(2) by (cases "199 - keptLines s") simp_all
  show ?case by (simp add: m)
next
  case (Cons l ls)
  obtain m where m: "199 - keptLines s = Suc m"
    using Cons.prems(2) by (cases "199 - keptLines s") simp_all
  show ?case
  proof (cases "important l")
    case True
    let ?s = "truncate_step 200 n s l"
    note st = truncate_step_keep [OF True, of n s]
    obtain pre where pre: "resultT ?s = resultT s @ pre"
      and lp: "list_all2 emitted_as pre ((if skippedSection s then [None] else []) @ [Some l])"
      using truncate_step_keep_lines [OF True, of n s] by blast
    show ?thesis
    proof (cases "keptLines s = 198")
      case True
      then have m0: "m = 0" using m by simp
      have "truncate_loop 200 n (l # ls) s = ?s" using True st(1) by simp
      moreover have "marked_lines (skippedSection s) (take_kept (199 - keptLines s) important (l # ls)) =
          (if skippedSection s then [None] else []) @ [Some l]"
        using \<open>important l\<close> m m0 by simp
      ultimately show ?thesis using pre lp by auto
    next
      case False
      with Cons.prems st(1) have a: "100 \<le> keptLines ?s" and b: "keptLines ?s < 199" by simp_all
      have c: "199 - keptLines ?s = m" using m st(1) by simp
      from Cons.IH [OF a b] obtain new where
        new: "resultT (truncate_loop 200 n ls ?s) = resultT ?s @ new"
        and ln: "list_all2 emitted_as new (marked_lines False (take_kept m important ls))"
        using st(3) c by auto
      have loop: "truncate_loop 200 n (l # ls) s = truncate_loop 200 n ls ?s"
        using b by simp
      have ml: "marked_lines (skippedSection s) (take_kept (199 - keptLines s) important (l # ls)) =
          ((if skippedSection s then [None] else []) @ [Some l]) @
          marked_lines False (take_kept m important ls)"
        using \<open>important l\<close> m by simp
      have "resultT (truncate_loop 200 n (l # ls) s) = resultT s @ (pre @ new)"
        using loop new pre by simp
      moreover have "list_all2 emitted_as (pre @ new)
          (((if skippedSection s then [None] else []) @ [Some l]) @
           marked_lines False (take_kept m important ls))"
        using lp ln by (rule list_all2_appendI)
      ultimately show ?thesis unfolding ml by blast
    qed
  next
    case False
    let ?s = "s\<lparr>skippedSection := True\<rparr>"
    have st: "truncate_step 200 n s l = ?s"
      using False Cons.prems(1) by (rule truncate_step_drop)
    have a: "100 \<le> keptLines ?s" and b: "keptLines ?s < 199" using Cons.prems by simp_all
    from Cons.IH [OF a b] st False Cons.prems m show ?thesis
      by simp
  qed
qed

lemma marked_lines_markers:
  "length (filter (\<lambda>e. e = None) (marked_lines d ls)) = closed_drop_runs ((\<not> d) # map important ls)"
  by (induction ls arbitrary: d) simp_all

lemma marked_lines_kept:
  "map the (filter (\<lambda>e. e \<noteq> None) (marked_lines d ls)) = filter important ls"
  by (induction ls arbitrary: d) simp_all

lemma smartTruncate_lines:
  assumes "200 < length (split_on nl code)"
  shows "split_on nl (smartTruncate code 200 language) =
           resultT (truncate_loop 200 (length (split_on nl code)) (split_on nl code) truncate_init)
           @ [summary_line (length (split_on nl code))
                (keptLines (truncate_loop 200 (length (split_on nl code)) (split_on nl code) truncate_init))] \<and>
         keptLines (truncate_loop 200 (length (split_on nl code)) (split_on nl code) truncate_init) =
           100 + length (filter important (take_kept 99 important (drop 100 (split_on nl code)))) \<and>
         length (resultT (truncate_loop 200 (length (split_on nl code)) (split_on nl code) truncate_init)) =
           100 + length (filter important (take_kept 99 important (drop 100 (split_on nl code))))
           + closed_drop_runs (True # map important (take_kept 99 important (drop 100 (split_on nl code)))) \<and>
         list_all2 emitted_as
           (resultT (truncate_loop 200 (length (split_on nl code)) (split_on nl code) truncate_init))
           (map Some (take 100 (split_on nl code)) @
            marked_lines False (take_kept 99 important (drop 100 (split_on nl code))))"
proof -
  let ?lines = "split_on nl code"
  let ?n = "length ?lines"
  let ?s = "truncate_loop 200 ?n ?lines truncate_init"
  let ?h = "\<lparr>resultT = take 100 ?lines, keptLines = 100, skippedSection = False\<rparr>"
  have len: "length (take 100 ?lines) = 100" using assms by simp
  have "truncate_loop 200 ?n (take 100 ?lines @ drop 100 ?lines)
          \<lparr>resultT = [], keptLines = 0, skippedSection = False\<rparr> =
        truncate_loop 200 ?n (drop 100 ?lines)
          \<lparr>resultT = [] @ take 100 ?lines, keptLines = 0 + length (take 100 ?lines),
           skippedSection = False\<rparr>"
    by (rule truncate_loop_first_half) (simp add: len)
  then have s: "?s = truncate_loop 200 ?n (drop 100 ?lines) ?h"
    using assms by (simp add: truncate_init_def min_def)
  have h: "100 \<le> keptLines ?h" "keptLines ?h < 199" by simp_all
  note sh = truncate_loop_second_half [OF h, of ?n "drop 100 ?lines", folded s]
  have k: "keptLines ?s = 100 + length (filter important (take_kept 99 important (drop 100 ?lines)))"
    using sh [THEN conjunct1] assms by (simp add: min_def)
  have r: "length (resultT ?s) =
           100 + length (filter important (take_kept 99 important (drop 100 ?lines)))
           + closed_drop_runs (True # map important (take_kept 99 important (drop 100 ?lines)))"
    using sh [THEN conjunct2] assms by (simp add: min_def)
  from truncate_loop_second_half_lines [OF h, of ?n "drop 100 ?lines", folded s]
  obtain new where new: "resultT ?s = take 100 ?lines @ new"
    and ln: "list_all2 emitted_as new (marked_lines False (take_kept 99 important (drop 100 ?lines)))"
    by auto
  have "list_all2 emitted_as (take 100 ?lines @ new)
      (map Some (take 100 ?lines) @ marked_lines False (take_kept 99 important (drop 100 ?lines)))"
    using emitted_as_kept ln by (rule list_all2_appendI)
  then have st: "list_all2 emitted_as (resultT ?s)
      (map Some (take 100 ?lines) @ marked_lines False (take_kept 99 important (drop 100 ?lines)))"
    unfolding new .
  have "keptLines ?s \<le> 199" using k take_kept_budget [of important 99 "drop 100 ?lines"] by simp
  with assms have lt: "keptLines ?s < ?n" by simp
  have "\<forall>l\<in>set ?lines. nl \<notin> set l" by (simp add: split_on_parts)
  then have "\<forall>l\<in>set (resultT ?s). nl \<notin> set l"
    by (intro truncate_loop_no_nl) (simp_all add: truncate_init_def)
  then have nf: "\<forall>l\<in>set (resultT ?s @ [summary_line ?n (keptLines ?s)]). nl \<notin> set l"
    by (simp add: summary_line_no_nl)
  have "smartTruncate code 200 language = join_with [nl] (resultT ?s @ [summary_line ?n (keptLines ?s)])"
    using assms lt by (simp add: smartTruncate_def Let_def)
  moreover have "split_on nl (join_with [nl] (resultT ?s @ [summary_line ?n (keptLines ?s)])) =
      resultT ?s @ [summary_line ?n (keptLines ?s)]"
    using nf by (intro split_on_join) simp_all
  ultimately have out: "split_on nl (smartTruncate code 200 language) =
      resultT ?s @ [summary_line ?n (keptLines ?s)]" by simp
  show ?thesis
    by (intro conjI out k r st)
qed

text \<open>
  C3.  For an input of more than 200 lines (500 in particular) and a budget of 200 lines
  the truncator keeps the first 100 lines and after them the important lines only, until
  199 lines are kept.  Its output is, in this order: the first 100 lines; then every
  important line among the lines scanned after them, with one marker line before it
  exactly when the line before it was dropped, that is one marker line for each
  contiguous run of dropped lines that is followed by a kept line; and at the end one
  summary line, which gives the number of lines not kept and the number of lines of the
  input.  There are at most 199 kept lines and at most 99 markers, so the output has at
  most 299 lines.
\<close>

theorem smartTruncate_output:
  assumes "200 < length (split_on nl code)"
  shows "list_all2 emitted_as (butlast (split_on nl (smartTruncate code 200 language)))
           (map Some (take 100 (split_on nl code)) @
            marked_lines False (take_kept 99 important (drop 100 (split_on nl code)))) \<and>
         last (split_on nl (smartTruncate code 200 language)) =
           summary_line (length (split_on nl code))
             (100 + length (filter important (take_kept 99 important (drop 100 (split_on nl code))))) \<and>
         map the (filter (\<lambda>e. e \<noteq> None)
             (marked_lines False (take_kept 99 important (drop 100 (split_on nl code))))) =
           filter important (take_kept 99 important (drop 100 (split_on nl code))) \<and>
         length (filter (\<lambda>e. e = None)
             (marked_lines False (take_kept 99 important (drop 100 (split_on nl code))))) =
           closed_drop_runs (True # map important (take_kept 99 important (drop 100 (split_on nl code)))) \<and>
         length (split_on nl (smartTruncate code 200 language)) =
           (100 + length (filter important (take_kept 99 important (drop 100 (split_on nl code)))))
           + closed_drop_runs (True # map important (take_kept 99 important (drop 100 (split_on nl code))))
           + 1 \<and>
         length (filter important (take_kept 99 important (drop 100 (split_on nl code)))) \<le> 99 \<and>
         closed_drop_runs (True # map important (take_kept 99 important (drop 100 (split_on nl code))))
           \<le> length (filter important (take_kept 99 important (drop 100 (split_on nl code)))) \<and>
         length (split_on nl (smartTruncate code 200 language)) \<le> 299"
proof -
  let ?sc = "take_kept 99 important (drop 100 (split_on nl code))"
  let ?out = "split_on nl (smartTruncate code 200 language)"
  note l = smartTruncate_lines [OF assms, of language]
  have a: "length (filter important ?sc) \<le> 99" by (rule take_kept_budget)
  have b: "closed_drop_runs (True # map important ?sc) \<le> length (filter important ?sc)"
    by (rule closed_drop_runs_le)
  have c: "map the (filter (\<lambda>e. e \<noteq> None) (marked_lines False ?sc)) = filter important ?sc"
    by (rule marked_lines_kept)
  have d: "length (filter (\<lambda>e. e = None) (marked_lines False ?sc)) =
      closed_drop_runs (True # map important ?sc)"
    using marked_lines_markers [of False ?sc] by simp
  from l have e: "list_all2 emitted_as (butlast ?out) (map Some (take 100 (split_on nl code)) @ marked_lines False ?sc)"
    by simp
  from l have f: "last ?out = summary_line (length (split_on nl code)) (100 + length (filter important ?sc))"
    by simp
  from l have g: "length ?out = (100 + length (filter important ?sc))
      + closed_drop_runs (True # map important ?sc) + 1"
    by simp
  from g a b have h: "length ?out \<le> 299" by simp
  show ?thesis
    by (intro conjI e f c d g a b h)
qed

lemma python_tail:
  "length (filter important (take_kept 99 important (concat (replicate 200 [''x = 1'', ''def f():''])))) = 99"
  "closed_drop_runs (True # map important (take_kept 99 important (concat (replicate 200 [''x = 1'', ''def f():''])))) = 99"
  by code_simp+

theorem smartTruncate_output_witness:
  "200 < length (split_on nl (join_with [nl] (replicate 100 ''import a'' @ concat (replicate 200 [''x = 1'', ''def f():''])))) \<and>
   length (split_on nl (smartTruncate (join_with [nl] (replicate 100 ''import a'' @ concat (replicate 200 [''x = 1'', ''def f():'']))) 200 Python)) = 299 \<and>
   length (filter (\<lambda>e. e = None) (marked_lines False (take_kept 99 important (concat (replicate 200 [''x = 1'', ''def f():'']))))) = 99 \<and>
   list_all2 emitted_as
     (butlast (split_on nl (smartTruncate (join_with [nl] (replicate 100 ''import a'' @ concat (replicate 200 [''x = 1'', ''def f():'']))) 200 Python)))
     (map Some (take 100 (replicate 100 ''import a'' @ concat (replicate 200 [''x = 1'', ''def f():'']))) @ marked_lines False (take_kept 99 important (concat (replicate 200 [''x = 1'', ''def f():''])))) \<and>
   last (split_on nl (smartTruncate (join_with [nl] (replicate 100 ''import a'' @ concat (replicate 200 [''x = 1'', ''def f():'']))) 200 Python)) = summary_line 500 199"
proof -
  let ?L = "replicate 100 ''import a'' @ concat (replicate 200 [''x = 1'', ''def f():''])"
  let ?out = "split_on nl (smartTruncate (join_with [nl] ?L) 200 Python)"
  have nf: "\<forall>l\<in>set ?L. nl \<notin> set l"
    by (auto simp: nl_def)
  have sp: "split_on nl (join_with [nl] ?L) = ?L"
    using nf by (intro split_on_join) simp_all
  have len: "length ?L = 500"
    by (simp add: length_concat sum_list_replicate)
  have dr: "drop 100 ?L = concat (replicate 200 [''x = 1'', ''def f():''])"
    by simp
  have h: "200 < length (split_on nl (join_with [nl] ?L))"
    unfolding sp len by simp
  note t = smartTruncate_output [OF h, of Python, unfolded sp dr python_tail len]
  from t have a: "length ?out = 100 + 99 + 99 + 1"
    by (elim conjE)
  then have a': "length ?out = 299"
    by simp
  from t have b: "length (filter (\<lambda>e. e = None) (marked_lines False (take_kept 99 important (concat (replicate 200 [''x = 1'', ''def f():'']))))) = 99"
    by (elim conjE)
  from t have c: "list_all2 emitted_as (butlast ?out)
      (map Some (take 100 ?L) @ marked_lines False (take_kept 99 important (concat (replicate 200 [''x = 1'', ''def f():'']))))"
    by (elim conjE)
  from t have "last ?out = summary_line 500 (100 + 99)"
    by (elim conjE)
  then have d: "last ?out = summary_line 500 199"
    by simp
  show ?thesis
    by (intro conjI h a' b c d)
qed

lemma alternating_tail:
  "length (filter important (take_kept 99 important (concat (replicate 200 [''x'', ''fn f''])))) = 99"
  "closed_drop_runs (True # map important (take_kept 99 important (concat (replicate 200 [''x'', ''fn f''])))) = 99"
  by code_simp+

text \<open>
  An input of 500 lines: 100 declarations, then 200 times a plain line followed by a
  declaration.  Only declarations are kept.  Every declaration behind the first 100
  lines brings a marker line with it, and the output has 299 lines.
\<close>

theorem smartTruncate_output_counterexample:
  "important ''fn f'' \<and> \<not> important ''x'' \<and>
   length (split_on nl (join_with [nl] (replicate 100 ''fn f'' @ concat (replicate 200 [''x'', ''fn f''])))) = 500 \<and>
   length (split_on nl (smartTruncate (join_with [nl] (replicate 100 ''fn f'' @ concat (replicate 200 [''x'', ''fn f'']))) 200 Typescript)) = 299"
proof -
  let ?L = "replicate 100 ''fn f'' @ concat (replicate 200 [''x'', ''fn f''])"
  have i: "important ''fn f''" "\<not> important ''x''"
    by code_simp+
  have nf: "\<forall>l\<in>set ?L. nl \<notin> set l"
    by (auto simp: nl_def)
  have sp: "split_on nl (join_with [nl] ?L) = ?L"
    using nf by (intro split_on_join) simp_all
  have len: "length ?L = 500"
    by (simp add: length_concat sum_list_replicate)
  have dr: "drop 100 ?L = concat (replicate 200 [''x'', ''fn f''])"
    by simp
  have a: "length (split_on nl (join_with [nl] ?L)) = 500"
    unfolding sp by (rule len)
  then have h: "200 < length (split_on nl (join_with [nl] ?L))"
    by simp
  note t = smartTruncate_lines [OF h, of Typescript, unfolded sp dr alternating_tail]
  from t have "length (split_on nl (smartTruncate (join_with [nl] ?L) 200 Typescript)) =
      length (resultT (truncate_loop 200 (length ?L) ?L truncate_init)) + 1"
    by (simp only: length_append list.size)
  also from t have "length (resultT (truncate_loop 200 (length ?L) ?L truncate_init)) = 100 + 99 + 99"
    by (elim conjE)
  finally have b: "length (split_on nl (smartTruncate (join_with [nl] ?L) 200 Typescript)) = 299"
    by simp
  show ?thesis
    by (intro conjI i a b)
qed


end
